theory Spec2Isabelle
  imports Complex_Main
begin

section \<open>The media processing queue of \<open>services/media_processor.py\<close>\<close>

text \<open>
  The program runs on one asyncio event loop: tasks are coroutines that run without
  interruption from one \<open>await\<close> that suspends to the next. The model below follows
  that granularity. A state of the \<open>MediaProcessor\<close> is a record; every piece of code that
  runs between two suspension points is one function on states; the scheduler's choice of
  which task runs next, and what the outside world answers, is an \<open>event\<close>.

  Python values are modelled as follows. A \<open>Path\<close> is the list of its components. An
  exception is a value of the datatype \<open>error\<close>. An \<open>asyncio.Future\<close> is a cell of a
  store indexed by natural numbers (object identity); \<open>loop.create_future()\<close> takes the
  next free index.
\<close>

subsection \<open>Data\<close>

type_synonym path = "string list"

text \<open>
  \<open>bytes\<close> are lists of 8-bit characters. A \<open>str\<close> whose characters the program
  inspects, or that it builds from decoded bytes, is the list of its Unicode code
  points; \<open>ascii\<close> is an ASCII literal as such a \<open>str\<close>.
\<close>

type_synonym bytes = string
type_synonym str = "nat list"

definition ascii :: "string \<Rightarrow> str" where
  "ascii cs = map of_char cs"

datatype error =
    MediaProcessingError str
  | FileExistsError
  | FileNotFoundError
  | NotADirectoryError
  | UnicodeDecodeError
  | ValueError
  | OverflowError
  | InvalidStateError
  | CancelledError

text \<open>
  \<open>except Exception\<close> catches the subclasses of \<open>Exception\<close>. Since Python 3.8
  \<open>asyncio.CancelledError\<close> derives from \<open>BaseException\<close> only (the source needs
  Python 3.10 for \<open>dataclass(slots=True)\<close>); all other errors of the model are
  subclasses of \<open>Exception\<close>.
\<close>

fun is_Exception :: "error \<Rightarrow> bool" where
  "is_Exception CancelledError = False"
| "is_Exception _ = True"

text \<open>\<open>class MediaJob\<close>; the field \<open>future\<close> is the index of the job's future.\<close>

record media_job =
  kind :: string
  source_path :: path
  destination_dir :: path
  future :: nat

datatype future_state = Pending | Result path | Exception error | Cancelled

fun future_done :: "future_state \<Rightarrow> bool" where
  "future_done Pending = False"
| "future_done _ = True"

text \<open>
  \<open>Future.set_result\<close> and \<open>Future.set_exception\<close> raise \<open>InvalidStateError\<close> on a
  future that is done already.
\<close>

definition set_result :: "future_state \<Rightarrow> path \<Rightarrow> error + future_state" where
  "set_result f r = (if future_done f then Inl InvalidStateError else Inr (Result r))"

definition set_exception :: "future_state \<Rightarrow> error \<Rightarrow> error + future_state" where
  "set_exception f e = (if future_done f then Inl InvalidStateError else Inr (Exception e))"

text \<open>
  The worker task \<open>_worker_task\<close>: suspended in \<open>await self.queue.get()\<close> (\<open>AtGet\<close>; a task
  that was created and has not run yet behaves the same), suspended in the transform of
  a job it has dequeued (\<open>InJob\<close>), or finished (\<open>Finished\<close>).
\<close>

datatype worker = AtGet | InJob media_job | Finished

text \<open>
  The state of a \<open>MediaProcessor\<close>. \<open>queue\<close> is the deque of the \<open>asyncio.Queue\<close>,
  \<open>putters\<close> its deque of producers suspended in \<open>put\<close>, \<open>woken\<close> the producers that
  \<open>get_nowait\<close> has woken and that have not run yet. \<open>enqueued\<close> and \<open>started\<close> are
  history variables that no code reads: the jobs in the order \<open>put_nowait\<close> appended
  them, and the jobs in the order the worker took them into its \<open>try\<close> block.
\<close>

record media_processor =
  maxsize :: int
  queue :: "media_job list"
  putters :: "media_job list"
  woken :: "media_job list"
  worker_task :: "worker option"
  shutdown :: bool
  futures :: "nat \<Rightarrow> future_state"
  next_future :: nat
  enqueued :: "media_job list"
  started :: "media_job list"

subsection \<open>\<open>asyncio.Queue\<close>\<close>

text \<open>
  \<open>Queue.full\<close>: \<^verbatim>\<open>if self._maxsize <= 0: return False
  else: return self.qsize() >= self._maxsize\<close>.
\<close>

definition full :: "media_processor \<Rightarrow> bool" where
  "full s = (if maxsize s \<le> 0 then False else maxsize s \<le> int (length (queue s)))"

text \<open>\<open>_wakeup_next(self._putters)\<close>: the first suspended producer is made runnable.\<close>

definition wakeup_next_putter :: "media_processor \<Rightarrow> media_processor" where
  "wakeup_next_putter s =
     (case putters s of
        [] \<Rightarrow> s
      | j # js \<Rightarrow> s\<lparr>putters := js, woken := woken s @ [j]\<rparr>)"

text \<open>\<open>put_nowait\<close> on a queue that is not full: the item goes to the tail.\<close>

definition put_nowait :: "media_job \<Rightarrow> media_processor \<Rightarrow> media_processor" where
  "put_nowait j s = s\<lparr>queue := queue s @ [j], enqueued := enqueued s @ [j]\<rparr>"

text \<open>
  One pass of \<open>put\<close>: \<^verbatim>\<open>while self.full(): ... await putter\<close> suspends the producer at
  the end of the putters; otherwise \<open>put_nowait\<close>.
\<close>

definition put :: "media_job \<Rightarrow> media_processor \<Rightarrow> media_processor" where
  "put j s = (if full s then s\<lparr>putters := putters s @ [j]\<rparr> else put_nowait j s)"

subsection \<open>\<open>MediaProcessor\<close>\<close>

text \<open>\<open>__init__\<close>.\<close>

definition new_processor :: "int \<Rightarrow> media_processor" where
  "new_processor queue_maxsize =
     \<lparr>maxsize = queue_maxsize, queue = [], putters = [], woken = [],
      worker_task = None, shutdown = False,
      futures = (\<lambda>_. Pending), next_future = 0,
      enqueued = [], started = []\<rparr>"

text \<open>\<open>start\<close>.\<close>

definition start :: "media_processor \<Rightarrow> media_processor" where
  "start s =
     (let s1 = (if shutdown s then s\<lparr>shutdown := False\<rparr> else s)
      in if worker_task s1 = None then s1\<lparr>worker_task := Some AtGet\<rparr> else s1)"

text \<open>
  \<open>_enqueue\<close> up to its first suspension: a fresh future, the job, \<open>queue.put\<close>. The
  caller then waits in \<open>put\<close> or in \<open>await future\<close>.
\<close>

definition enqueue :: "string \<Rightarrow> path \<Rightarrow> path \<Rightarrow> media_processor \<Rightarrow> media_processor" where
  "enqueue k source destination s =
     (let job = \<lparr>kind = k, source_path = source, destination_dir = destination,
                 future = next_future s\<rparr>
      in put job (s\<lparr>futures := (futures s)(next_future s := Pending),
                     next_future := Suc (next_future s)\<rparr>))"

text \<open>
  A woken producer runs again: it leaves \<open>await putter\<close> and takes the \<open>while\<close> test of
  \<open>put\<close> once more.
\<close>

definition resume_put :: "nat \<Rightarrow> media_processor \<Rightarrow> media_processor" where
  "resume_put fid s =
     (case filter (\<lambda>j. future j = fid) (woken s) of
        [] \<Rightarrow> s
      | j # _ \<Rightarrow> put j (s\<lparr>woken := filter (\<lambda>j. future j \<noteq> fid) (woken s)\<rparr>))"

text \<open>
  The task of a caller is cancelled from outside. In \<open>put\<close>, a suspended producer
  leaves the putters; a woken one passes its wake-up on when the queue has room
  (\<^verbatim>\<open>if not self.full() and not putter.cancelled(): self._wakeup_next(self._putters)\<close>).
  In \<open>await future\<close>, the pending future is cancelled.
\<close>

definition cancel_caller :: "nat \<Rightarrow> media_processor \<Rightarrow> media_processor" where
  "cancel_caller fid s =
     (if filter (\<lambda>j. future j = fid) (putters s) \<noteq> [] then
        s\<lparr>putters := filter (\<lambda>j. future j \<noteq> fid) (putters s)\<rparr>
      else if filter (\<lambda>j. future j = fid) (woken s) \<noteq> [] then
        (let s1 = s\<lparr>woken := filter (\<lambda>j. future j \<noteq> fid) (woken s)\<rparr>
         in if full s1 then s1 else wakeup_next_putter s1)
      else if fid < next_future s \<and> futures s fid = Pending then
        s\<lparr>futures := (futures s)(fid := Cancelled)\<rparr>
      else s)"

subsection \<open>The worker\<close>

text \<open>
  The body of the \<open>try\<close> after the transform has returned a path or raised:
  \<^verbatim>\<open>if not job.future.done(): job.future.set_result(result)\<close>.
\<close>

definition try_body ::
  "media_job \<Rightarrow> error + path \<Rightarrow> (nat \<Rightarrow> future_state) \<Rightarrow> error + (nat \<Rightarrow> future_state)" where
  "try_body job outcome futs =
     (case outcome of
        Inl exc \<Rightarrow> Inl exc
      | Inr result \<Rightarrow>
          if \<not> future_done (futs (future job)) then
            (case set_result (futs (future job)) result of
               Inl exc \<Rightarrow> Inl exc
             | Inr f \<Rightarrow> Inr (futs(future job := f)))
          else Inr futs)"

text \<open>
  The handler \<^verbatim>\<open>except Exception as exc: if not job.future.done():
  job.future.set_exception(exc)\<close>.
\<close>

definition except_clause ::
  "media_job \<Rightarrow> error \<Rightarrow> (nat \<Rightarrow> future_state) \<Rightarrow> error + (nat \<Rightarrow> future_state)" where
  "except_clause job exc futs =
     (if \<not> future_done (futs (future job)) then
        (case set_exception (futs (future job)) exc of
           Inl e \<Rightarrow> Inl e
         | Inr f \<Rightarrow> Inr (futs(future job := f)))
      else Inr futs)"

text \<open>The loop test \<^verbatim>\<open>while not self._shutdown.is_set()\<close>, followed by \<open>queue.get()\<close>.\<close>

definition loop_test :: "media_processor \<Rightarrow> media_processor" where
  "loop_test s = s\<lparr>worker_task := Some (if shutdown s then Finished else AtGet)\<rparr>"

text \<open>
  The rest of one iteration, from the outcome of the transform on: \<open>try\<close>, \<open>except\<close>,
  \<open>finally\<close> and the loop test. \<open>task_done\<close> only counts the items for \<open>Queue.join\<close>,
  which nothing calls; called once for each item taken, it does not raise. An error that \<open>except Exception\<close> does not catch, or one raised by the handler
  itself, ends the task.
\<close>

definition worker_settle :: "media_job \<Rightarrow> error + path \<Rightarrow> media_processor \<Rightarrow> media_processor" where
  "worker_settle job outcome s =
     (case try_body job outcome (futures s) of
        Inr futs \<Rightarrow> loop_test (s\<lparr>futures := futs\<rparr>)
      | Inl exc \<Rightarrow>
          if is_Exception exc then
            (case except_clause job exc (futures s) of
               Inr futs \<Rightarrow> loop_test (s\<lparr>futures := futs\<rparr>)
             | Inl e \<Rightarrow> s\<lparr>worker_task := Some Finished\<rparr>)
          else s\<lparr>worker_task := Some Finished\<rparr>)"

text \<open>
  The worker leaves \<open>queue.get()\<close> with the head of the queue (\<open>get_nowait\<close> wakes the next
  producer) and enters the \<open>try\<close>. A photo or video job suspends in its transform; any
  other kind raises at once, with no suspension in between.
\<close>

definition worker_get :: "media_processor \<Rightarrow> media_processor" where
  "worker_get s =
     (if worker_task s = Some AtGet then
        (case queue s of
           [] \<Rightarrow> s
         | job # rest \<Rightarrow>
             (let s1 = wakeup_next_putter (s\<lparr>queue := rest, started := started s @ [job]\<rparr>)
              in if kind job = ''photo'' \<or> kind job = ''video'' then
                   s1\<lparr>worker_task := Some (InJob job)\<rparr>
                 else
                   worker_settle job
                     (Inl (MediaProcessingError (ascii (''Unknown job type: '' @ kind job)))) s1))
      else s)"

text \<open>The awaited transform of the job in flight returns a path or raises.\<close>

definition transform_done :: "error + path \<Rightarrow> media_processor \<Rightarrow> media_processor" where
  "transform_done outcome s =
     (case worker_task s of
        Some (InJob job) \<Rightarrow> worker_settle job outcome s
      | _ \<Rightarrow> s)"

text \<open>
  \<open>stop\<close>: the flag is set and the task cancelled. \<open>CancelledError\<close> is raised in the
  worker where it is suspended: in \<open>queue.get()\<close>, outside the \<open>try\<close>, or in the
  transform, inside it. \<open>stop\<close> then awaits the task, which has ended.
\<close>

definition stop :: "media_processor \<Rightarrow> media_processor" where
  "stop s =
     (let s1 = s\<lparr>shutdown := True\<rparr>
      in case worker_task s1 of
           None \<Rightarrow> s1
         | Some AtGet \<Rightarrow> s1\<lparr>worker_task := Some Finished\<rparr>
         | Some (InJob job) \<Rightarrow> worker_settle job (Inl CancelledError) s1
         | Some Finished \<Rightarrow> s1)"

subsection \<open>Runs\<close>

datatype event =
    Start
  | Stop
  | Enqueue string path path
  | ResumePut nat
  | CancelCaller nat
  | WorkerGet
  | TransformDone "error + path"

fun step :: "event \<Rightarrow> media_processor \<Rightarrow> media_processor" where
  "step Start s = start s"
| "step Stop s = stop s"
| "step (Enqueue k source destination) s = enqueue k source destination s"
| "step (ResumePut fid) s = resume_put fid s"
| "step (CancelCaller fid) s = cancel_caller fid s"
| "step WorkerGet s = worker_get s"
| "step (TransformDone outcome) s = transform_done outcome s"

fun run :: "event list \<Rightarrow> media_processor \<Rightarrow> media_processor" where
  "run [] s = s"
| "run (ev # evs) s = run evs (step ev s)"

subsection \<open>Vocabulary of the properties\<close>

text \<open>
  What a future holds once the worker has settled it with the outcome of a transform,
  and the outcomes that \<open>except Exception\<close> can catch.
\<close>

definition settled :: "error + path \<Rightarrow> future_state" where
  "settled outcome = (case outcome of Inr p \<Rightarrow> Result p | Inl e \<Rightarrow> Exception e)"

fun catchable :: "error + path \<Rightarrow> bool" where
  "catchable (Inr p) = True"
| "catchable (Inl e) = is_Exception e"

text \<open>The job the worker holds, and the jobs the processor holds anywhere.\<close>

fun in_flight :: "worker option \<Rightarrow> media_job list" where
  "in_flight (Some (InJob job)) = [job]"
| "in_flight _ = []"

fun running :: "worker option \<Rightarrow> bool" where
  "running (Some AtGet) = True"
| "running (Some (InJob job)) = True"
| "running _ = False"

definition held :: "media_processor \<Rightarrow> media_job list" where
  "held s = in_flight (worker_task s) @ queue s @ woken s @ putters s"

text \<open>
  An invariant of the reachable states: a live worker has not seen the shutdown flag,
  and the jobs held have distinct futures that were all created.
\<close>

definition coherent :: "media_processor \<Rightarrow> bool" where
  "coherent s =
     ((if running (worker_task s) then \<not> shutdown s else True)
      \<and> distinct (map future (held s))
      \<and> list_all (\<lambda>job. future job < next_future s) (held s))"

text \<open>
  The worker serves the queue: for each outcome in turn it takes a job and the job's
  transform ends with that outcome. A job that is neither photo nor video never reaches
  a transform; its outcome is the error the worker raises itself.
\<close>

fun service :: "(error + path) list \<Rightarrow> event list" where
  "service [] = []"
| "service (outcome # outcomes) = WorkerGet # TransformDone outcome # service outcomes"

definition job_outcome :: "media_job \<Rightarrow> error + path \<Rightarrow> error + path" where
  "job_outcome job outcome =
     (if kind job = ''photo'' \<or> kind job = ''video'' then outcome
      else Inl (MediaProcessingError (ascii (''Unknown job type: '' @ kind job))))"

definition resolve ::
  "(nat \<Rightarrow> future_state) \<Rightarrow> media_job \<times> (error + path) \<Rightarrow> (nat \<Rightarrow> future_state)" where
  "resolve f p =
     (if f (future (fst p)) = Pending
      then f(future (fst p) := settled (job_outcome (fst p) (snd p))) else f)"

subsection \<open>Scenarios\<close>

text \<open>
  A processor of capacity 3 is started; a photo job is submitted and taken by the
  worker; a video job is submitted and waits in the queue. Then \<open>stop\<close> is called.
\<close>

definition before_stop :: media_processor where
  "before_stop =
     run [Start,
          Enqueue ''photo'' [''tmp'', ''input_a.jpg''] [''tmp'', ''processed''],
          WorkerGet,
          Enqueue ''video'' [''tmp'', ''input_b.mp4''] [''tmp'', ''processed'']]
       (new_processor 3)"

text \<open>
  A photo job is in flight when the processor is stopped; the processor is started
  again, and the scheduler offers the worker every step it could take.
\<close>

definition stopped_in_flight :: media_processor where
  "stopped_in_flight =
     run [Start,
          Enqueue ''photo'' [''tmp'', ''input_a.jpg''] [''tmp'', ''processed''],
          WorkerGet,
          Stop,
          Start,
          TransformDone (Inr [''tmp'', ''processed'', ''0f.jpg'']),
          WorkerGet]
       (new_processor 3)"

text \<open>\<open>start\<close>, \<open>stop\<close>, \<open>start\<close> again, and then a photo job is submitted.\<close>

definition restarted :: media_processor where
  "restarted =
     run [Start, Stop, Start,
          Enqueue ''photo'' [''tmp'', ''input_a.jpg''] [''tmp'', ''processed''],
          WorkerGet]
       (new_processor 3)"

text \<open>
  Capacity 1: the first job fills the queue, the second producer is suspended in
  \<open>put\<close>.
\<close>

definition one_waiting :: media_processor where
  "one_waiting =
     run [Start,
          Enqueue ''photo'' [''tmp'', ''input_a.jpg''] [''tmp'', ''processed''],
          Enqueue ''video'' [''tmp'', ''input_b.mp4''] [''tmp'', ''processed'']]
       (new_processor 1)"

text \<open>
  Three jobs: a photo in flight, then a job of an unknown kind and a video in the
  queue.
\<close>

definition three_jobs :: media_processor where
  "three_jobs =
     run [Start,
          Enqueue ''photo'' [''tmp'', ''input_a.jpg''] [''tmp'', ''processed''],
          Enqueue ''gif'' [''tmp'', ''input_c.gif''] [''tmp'', ''processed''],
          Enqueue ''video'' [''tmp'', ''input_b.mp4''] [''tmp'', ''processed''],
          WorkerGet]
       (new_processor 3)"

text \<open>Capacity 0: two jobs are submitted.\<close>

definition unbounded :: media_processor where
  "unbounded =
     run [Enqueue ''photo'' [''tmp'', ''input_a.jpg''] [''tmp'', ''processed''],
          Enqueue ''video'' [''tmp'', ''input_b.mp4''] [''tmp'', ''processed'']]
       (new_processor 0)"

text \<open>
  Capacity 1, three submissions \<open>a\<close>, \<open>b\<close>, \<open>c\<close> with the futures 0, 1, 2. \<open>a\<close>
  fills the queue and \<open>b\<close> is suspended in \<open>put\<close>. The worker takes \<open>a\<close>, which frees
  the slot and wakes \<open>b\<close>.
\<close>

definition slot_freed :: media_processor where
  "slot_freed =
     run [Start,
          Enqueue ''photo'' [''tmp'', ''input_a.jpg''] [''tmp'', ''processed''],
          Enqueue ''video'' [''tmp'', ''input_b.mp4''] [''tmp'', ''processed''],
          WorkerGet]
       (new_processor 1)"

text \<open>
  Before \<open>b\<close> runs again, \<open>c\<close> is submitted and finds the queue with room. Then \<open>b\<close>
  runs, takes the \<open>while\<close> test of \<open>put\<close> and finds the queue full.
\<close>

definition slot_taken :: media_processor where
  "slot_taken =
     run [Enqueue ''photo'' [''tmp'', ''input_c.png''] [''tmp'', ''processed''],
          ResumePut 1]
       slot_freed"

text \<open>The worker then serves whatever the queue holds, and \<open>b\<close> runs when it is woken.\<close>

definition overtaken :: media_processor where
  "overtaken =
     run [TransformDone (Inr [''tmp'', ''processed'', ''0f.jpg'']),
          WorkerGet,
          ResumePut 1,
          TransformDone (Inr [''tmp'', ''processed'', ''2f.png'']),
          WorkerGet]
       slot_taken"

text \<open>
  The jobs submitted so far that the processor still accounts for: those the worker has
  begun, those in the queue and those of the producers in \<open>put\<close>. In a state reached
  without the cancellation of a caller they are all the jobs submitted, each once:
  their futures are the indices below \<open>next_future\<close>.
\<close>

definition accounted :: "media_processor \<Rightarrow> media_job list" where
  "accounted s = started s @ queue s @ woken s @ putters s"

fun is_cancel :: "event \<Rightarrow> bool" where
  "is_cancel (CancelCaller fid) = True"
| "is_cancel _ = False"

definition all_accounted :: "media_processor \<Rightarrow> bool" where
  "all_accounted s =
     (distinct (map future (accounted s))
      \<and> set (map future (accounted s)) = {..<next_future s})"

section \<open>Text, bytes and numbers of the Python runtime\<close>

text \<open>
  The probes read the bytes a child process printed, decode them, strip them and
  parse an integer; the settings parse an integer from the environment. The functions
  below follow CPython.

  Some things of the runtime are parameters: the Unicode table of decimal digits
  outside ASCII; the limit on the number of digits \<open>int\<close> accepts
  (\<open>sys.get_int_max_str_digits()\<close>, 0 for none), which depends on the version and
  the environment; the printing of floats, \<open>str(x)\<close> and \<open>format(x, '.nf')\<close>; and
  \<open>str.lower\<close> on the names of files, which are strings of 8-bit characters here.
\<close>

record runtime =
  decimal :: "nat \<Rightarrow> nat option"
  int_max_str_digits :: nat
  float_str :: "real \<Rightarrow> string"
  float_fixed :: "nat \<Rightarrow> real \<Rightarrow> string"
  str_lower :: "string \<Rightarrow> string"

subsection \<open>\<open>bytes.decode()\<close>: strict UTF-8\<close>

definition continuation :: "nat \<Rightarrow> bool" where
  "continuation b = (128 \<le> b \<and> b < 192)"

fun utf8 :: "nat list \<Rightarrow> str option" where
  "utf8 [] = Some []"
| "utf8 (b # bs) =
     (if b < 128 then
        (case utf8 bs of None \<Rightarrow> None | Some s \<Rightarrow> Some (b # s))
      else if 194 \<le> b \<and> b < 224 then
        (case bs of
           c1 # r \<Rightarrow>
             if continuation c1 then
               (case utf8 r of
                  None \<Rightarrow> None
                | Some s \<Rightarrow> Some (((b - 192) * 64 + (c1 - 128)) # s))
             else None
         | _ \<Rightarrow> None)
      else if 224 \<le> b \<and> b < 240 then
        (case bs of
           c1 # c2 # r \<Rightarrow>
             if continuation c1 \<and> continuation c2
                \<and> (if b = 224 then 160 \<le> c1 else True)
                \<and> (if b = 237 then c1 < 160 else True) then
               (case utf8 r of
                  None \<Rightarrow> None
                | Some s \<Rightarrow> Some (((b - 224) * 4096 + (c1 - 128) * 64 + (c2 - 128)) # s))
             else None
         | _ \<Rightarrow> None)
      else if 240 \<le> b \<and> b < 245 then
        (case bs of
           c1 # c2 # c3 # r \<Rightarrow>
             if continuation c1 \<and> continuation c2 \<and> continuation c3
                \<and> (if b = 240 then 144 \<le> c1 else True)
                \<and> (if b = 244 then c1 < 144 else True) then
               (case utf8 r of
                  None \<Rightarrow> None
                | Some s \<Rightarrow>
                    Some (((b - 240) * 262144 + (c1 - 128) * 4096 + (c2 - 128) * 64
                           + (c3 - 128)) # s))
             else None
         | _ \<Rightarrow> None)
      else None)"

text \<open>Bytes that are not well-formed UTF-8 raise \<open>UnicodeDecodeError\<close>.\<close>

definition decode :: "bytes \<Rightarrow> error + str" where
  "decode bs =
     (case utf8 (map of_char bs) of
        None \<Rightarrow> Inl UnicodeDecodeError
      | Some s \<Rightarrow> Inr s)"

subsection \<open>\<open>str.strip()\<close>\<close>

text \<open>The characters \<open>str.isspace\<close> accepts.\<close>

definition isspace :: "nat \<Rightarrow> bool" where
  "isspace c =
     ((9 \<le> c \<and> c \<le> 13) \<or> (28 \<le> c \<and> c \<le> 32) \<or> c = 133 \<or> c = 160 \<or> c = 5760
      \<or> (8192 \<le> c \<and> c \<le> 8202) \<or> c = 8232 \<or> c = 8233 \<or> c = 8239 \<or> c = 8287
      \<or> c = 12288)"

definition strip :: "str \<Rightarrow> str" where
  "strip s = rev (dropWhile isspace (rev (dropWhile isspace s)))"

subsection \<open>\<open>int(str)\<close>\<close>

text \<open>
  CPython first rewrites the string to ASCII: an ASCII character stays, another space
  becomes a blank, another decimal digit becomes its ASCII digit, anything else
  becomes \<open>?\<close>. A NUL ends the C string early, which is an error as well; it is mapped to
  \<open>?\<close> here.
\<close>

definition to_ascii :: "runtime \<Rightarrow> nat \<Rightarrow> nat" where
  "to_ascii rt c =
     (if c = 0 then 63
      else if c < 127 then c
      else if isspace c then 32
      else (case decimal rt c of
              None \<Rightarrow> 63
            | Some d \<Rightarrow> if d < 10 then 48 + d else 63))"

text \<open>The blanks of C (\<open>Py_ISSPACE\<close>), the digits, the underscore.\<close>

definition c_space :: "nat \<Rightarrow> bool" where
  "c_space c = ((9 \<le> c \<and> c \<le> 13) \<or> c = 32)"

definition c_digit :: "nat \<Rightarrow> bool" where
  "c_digit c = (48 \<le> c \<and> c \<le> 57)"

text \<open>
  The digits of a literal, with single underscores between digits only: it does not
  start or end with one, and no two follow each other.
\<close>

fun grouped :: "nat list \<Rightarrow> bool" where
  "grouped [] = False"
| "grouped [c] = c_digit c"
| "grouped (c # d # cs) =
     (if c_digit c then (if d = 95 then grouped cs else grouped (d # cs)) else False)"

definition digits_value :: "nat list \<Rightarrow> int" where
  "digits_value ds = foldl (\<lambda>acc c. 10 * acc + int (c - 48)) 0 ds"

text \<open>
  \<open>PyLong_FromString\<close> in base 10: blanks, a sign, the digits, blanks, the end; more
  digits than the limit allows are refused too. \<open>None\<close> is the failure.
\<close>

definition parse_decimal :: "nat \<Rightarrow> nat list \<Rightarrow> int option" where
  "parse_decimal limit cs =
     (let t = dropWhile c_space cs;
          negative = (t \<noteq> [] \<and> hd t = 45);
          u = (if t \<noteq> [] \<and> (hd t = 43 \<or> hd t = 45) then tl t else t);
          body = takeWhile (\<lambda>c. c_digit c \<or> c = 95) u;
          rest = dropWhile (\<lambda>c. c_digit c \<or> c = 95) u;
          ds = filter c_digit body
      in if \<not> grouped body then None
         else if dropWhile c_space rest \<noteq> [] then None
         else if 640 < length ds \<and> 0 < limit \<and> limit < length ds then None
         else Some (if negative then - digits_value ds else digits_value ds))"

text \<open>\<open>int(s)\<close> raises \<open>ValueError\<close> on a string that is not an integer literal.\<close>

definition py_int :: "runtime \<Rightarrow> str \<Rightarrow> error + int" where
  "py_int rt s =
     (case parse_decimal (int_max_str_digits rt) (map (to_ascii rt) s) of
        None \<Rightarrow> Inl ValueError
      | Some n \<Rightarrow> Inr n)"

text \<open>
  A runtime for examples: its digit table is empty, it sets no limit, it prints
  every float as \<open>x\<close>, and it lowers the ASCII letters.
\<close>

definition ascii_lower :: "char \<Rightarrow> char" where
  "ascii_lower c =
     (case map_of (zip ''ABCDEFGHIJKLMNOPQRSTUVWXYZ'' ''abcdefghijklmnopqrstuvwxyz'') c of
        None \<Rightarrow> c
      | Some l \<Rightarrow> l)"

definition plain_runtime :: runtime where
  "plain_runtime =
     \<lparr>decimal = (\<lambda>_. None), int_max_str_digits = 0,
      float_str = (\<lambda>_. ''x''), float_fixed = (\<lambda>_ _. ''x''),
      str_lower = map ascii_lower\<rparr>"

section \<open>Settings (\<open>config.py\<close>)\<close>

text \<open>
  \<^verbatim>\<open>queue_maxsize=int(os.getenv("QUEUE_MAXSIZE", "3"))\<close>, with the environment as a
  lookup of that one variable; \<open>processor = MediaProcessor(queue_maxsize=settings.queue_maxsize)\<close>.
\<close>

definition queue_maxsize :: "runtime \<Rightarrow> str option \<Rightarrow> error + int" where
  "queue_maxsize rt env_value =
     py_int rt (case env_value of None \<Rightarrow> ascii ''3'' | Some v \<Rightarrow> v)"

definition processor :: "runtime \<Rightarrow> str option \<Rightarrow> error + media_processor" where
  "processor rt env_value =
     (case queue_maxsize rt env_value of
        Inl e \<Rightarrow> Inl e
      | Inr n \<Rightarrow> Inr (new_processor n))"

section \<open>The probes\<close>

text \<open>
  A child process that has ended: its exit code and what it printed. Starting it can
  fail (\<open>create_subprocess_exec\<close> raises, for instance \<open>FileNotFoundError\<close> when the
  executable is missing), so what the world answers to an invocation is an error or a
  completed process.
\<close>

record completed =
  returncode :: int
  stdout :: bytes
  stderr :: bytes

text \<open>
  \<open>_probe_has_audio\<close>, from the answer to its \<open>ffprobe\<close> invocation on:
  \<^verbatim>\<open>return bool(stdout and stdout.decode().strip())\<close>. The exit code is not read.
\<close>

definition probe_has_audio :: "error + completed \<Rightarrow> error + bool" where
  "probe_has_audio answer =
     (case answer of
        Inl e \<Rightarrow> Inl e
      | Inr process \<Rightarrow>
          if stdout process = [] then Inr False
          else (case decode (stdout process) of
                  Inl e \<Rightarrow> Inl e
                | Inr s \<Rightarrow> Inr (strip s \<noteq> [])))"

text \<open>\<open>except ValueError\<close>: \<open>UnicodeDecodeError\<close> is a subclass of \<open>ValueError\<close>.\<close>

definition is_ValueError :: "error \<Rightarrow> bool" where
  "is_ValueError e = (e = ValueError \<or> e = UnicodeDecodeError)"

text \<open>The expression \<^verbatim>\<open>int(stdout.decode().strip())\<close>.\<close>

definition parse_bitrate :: "runtime \<Rightarrow> bytes \<Rightarrow> error + int" where
  "parse_bitrate rt out =
     (case decode out of
        Inl e \<Rightarrow> Inl e
      | Inr s \<Rightarrow> py_int rt (strip s))"

text \<open>\<open>_probe_bitrate\<close>, from the answer to its \<open>ffprobe\<close> invocation on.\<close>

definition probe_bitrate :: "runtime \<Rightarrow> error + completed \<Rightarrow> error + int" where
  "probe_bitrate rt answer =
     (case answer of
        Inl e \<Rightarrow> Inl e
      | Inr process \<Rightarrow>
          if returncode process = 0 then
            (case parse_bitrate rt (stdout process) of
               Inr n \<Rightarrow> Inr n
             | Inl e \<Rightarrow> if is_ValueError e then Inr 2000000 else Inl e)
          else Inr 2000000)"

section \<open>Random draws and floats\<close>

text \<open>
  A draw of the generator is a natural number \<open>raw\<close> of entropy. \<open>random.random()\<close>
  is a 53-bit integer over \<open>2^53\<close>, in \<open>[0, 1)\<close>; \<open>random.uniform(a, b)\<close> is
  \<^verbatim>\<open>a + (b - a) * self.random()\<close>; \<open>random.choice(seq)\<close> is
  \<^verbatim>\<open>seq[self._randbelow(len(seq))]\<close>, an index below the length. Floats are
  modelled as real numbers: their rounding is not modelled, their overflow is.
\<close>

definition random_float :: "nat \<Rightarrow> real" where
  "random_float raw = real (raw mod 2 ^ 53) / 2 ^ 53"

definition uniform :: "real \<Rightarrow> real \<Rightarrow> nat \<Rightarrow> real" where
  "uniform a b raw = a + (b - a) * random_float raw"

definition choice :: "'a list \<Rightarrow> nat \<Rightarrow> 'a" where
  "choice seq raw = seq ! (raw mod length seq)"

text \<open>
  A magnitude of \<open>2^1024 - 2^970\<close> or more rounds to infinity. Converting such an
  \<open>int\<close> to a float raises \<open>OverflowError\<close>; a product that large is \<open>inf\<close>, and
  \<open>int(inf)\<close> raises \<open>OverflowError\<close>. \<open>int(x)\<close> truncates towards zero.
\<close>

definition float_limit :: real where
  "float_limit = 2 ^ 1024 - 2 ^ 970"

definition float_of_int :: "int \<Rightarrow> error + real" where
  "float_of_int n =
     (if float_limit \<le> \<bar>real_of_int n\<bar> then Inl OverflowError else Inr (real_of_int n))"

definition int_of_float :: "real \<Rightarrow> error + int" where
  "int_of_float x =
     (if float_limit \<le> \<bar>x\<bar> then Inl OverflowError
      else Inr (if 0 \<le> x then \<lfloor>x\<rfloor> else \<lceil>x\<rceil>))"

text \<open>The draws of \<open>process_photo\<close>.\<close>

definition draw_rotation :: "nat \<Rightarrow> real" where
  "draw_rotation raw = choice [- 0.3, - 0.2, 0.2, 0.3] raw"

definition draw_noise_level :: "nat \<Rightarrow> real" where
  "draw_noise_level raw = uniform 1.0 2.0 raw"

text \<open>
  The draws of \<open>process_video\<close>, and
  \<^verbatim>\<open>target_bitrate = max(int(bitrate * (1 + bitrate_delta)), 300_000)\<close>.
\<close>

definition draw_bitrate_delta :: "nat \<Rightarrow> real" where
  "draw_bitrate_delta raw = uniform (- 0.05) 0.05 raw"

definition target_bitrate :: "int \<Rightarrow> real \<Rightarrow> error + int" where
  "target_bitrate bitrate bitrate_delta =
     (case float_of_int bitrate of
        Inl e \<Rightarrow> Inl e
      | Inr b \<Rightarrow>
          (case int_of_float (b * (1 + bitrate_delta)) of
             Inl e \<Rightarrow> Inl e
           | Inr n \<Rightarrow> Inr (max n 300000)))"

definition draw_speed_factor :: "nat \<Rightarrow> real" where
  "draw_speed_factor raw = max 0.98 (min 1.02 (1 + uniform (- 0.02) 0.02 raw))"

definition draw_gamma_shift :: "nat \<Rightarrow> real" where
  "draw_gamma_shift raw = 1 + uniform (- 0.01) 0.01 raw"

section \<open>The file system and \<open>Path.mkdir\<close>\<close>

text \<open>
  A file system maps a path, the list of its components from the root, to what is
  there. Permissions are not modelled. \<open>walk\<close> is the path resolution of the operating
  system over the directories that lead to a path: a missing one is \<open>ENOENT\<close>, one that
  is a file is \<open>ENOTDIR\<close>.
\<close>

datatype node = File | Dir

type_synonym filesystem = "path \<Rightarrow> node option"

fun walk :: "filesystem \<Rightarrow> path \<Rightarrow> string list \<Rightarrow> error option" where
  "walk fs here [] = None"
| "walk fs here (c # cs) =
     (case fs here of
        None \<Rightarrow> Some FileNotFoundError
      | Some File \<Rightarrow> Some NotADirectoryError
      | Some Dir \<Rightarrow> walk fs (here @ [c]) cs)"

text \<open>\<open>Path.is_dir\<close>: false as well when the path cannot be resolved.\<close>

definition is_dir :: "filesystem \<Rightarrow> path \<Rightarrow> bool" where
  "is_dir fs p = (walk fs [] p = None \<and> fs p = Some Dir)"

text \<open>\<open>os.mkdir\<close>.\<close>

definition os_mkdir :: "path \<Rightarrow> filesystem \<Rightarrow> error + filesystem" where
  "os_mkdir p fs =
     (case walk fs [] p of
        Some e \<Rightarrow> Inl e
      | None \<Rightarrow>
          (case fs p of
             None \<Rightarrow> Inr (fs(p \<mapsto> Dir))
           | Some _ \<Rightarrow> Inl FileExistsError))"

text \<open>
  \<open>Path.mkdir(mode, parents, exist_ok)\<close> of \<open>pathlib\<close>:
  \<^verbatim>\<open>
  try:
      os.mkdir(self, mode)
  except FileNotFoundError:
      if not parents or self.parent == self:
          raise
      self.parent.mkdir(parents=True, exist_ok=True)
      self.mkdir(mode, parents=False, exist_ok=exist_ok)
  except OSError:
      if not exist_ok or not self.is_dir():
          raise
  \<close>
  The parent of a path is the path without its last component; the root is its own
  parent.
\<close>

function mkdir :: "bool \<Rightarrow> bool \<Rightarrow> path \<Rightarrow> filesystem \<Rightarrow> error + filesystem" where
  "mkdir parents exist_ok p fs =
     (case os_mkdir p fs of
        Inr fs' \<Rightarrow> Inr fs'
      | Inl e \<Rightarrow>
          if e = FileNotFoundError then
            (if parents \<and> butlast p \<noteq> p then
               (case mkdir True True (butlast p) fs of
                  Inl e' \<Rightarrow> Inl e'
                | Inr fs1 \<Rightarrow> mkdir False exist_ok p fs1)
             else Inl e)
          else if exist_ok \<and> is_dir fs p then Inr fs
          else Inl e)"
  by pat_completeness auto
termination
  by (relation "measure (\<lambda>(parents, exist_ok, p, fs). 2 * length p + (if parents then 1 else 0))")
     (auto simp: butlast_conv_take)

declare mkdir.simps [simp del]

text \<open>
  Nothing stands in the way of a path when neither the path nor a path leading to it
  is a file.
\<close>

fun clear :: "filesystem \<Rightarrow> path \<Rightarrow> string list \<Rightarrow> bool" where
  "clear fs here [] = (fs here \<noteq> Some File)"
| "clear fs here (c # cs) = (fs here \<noteq> Some File \<and> clear fs (here @ [c]) cs)"

section \<open>The transforms\<close>

subsection \<open>Paths and strings\<close>

text \<open>
  \<open>PurePath.suffix\<close>, as CPython 3.10 to 3.13 define it:
  \<^verbatim>\<open>i = name.rfind('.'); if 0 < i < len(name) - 1: return name[i:]\<close>,
  and the empty string otherwise; the name is the last component.
\<close>

definition name :: "path \<Rightarrow> string" where
  "name p = (if p = [] then [] else last p)"

definition suffix :: "path \<Rightarrow> string" where
  "suffix p =
     (let n = name p;
          after = takeWhile (\<lambda>c. c \<noteq> CHR ''.'') (rev n);
          i = length n - length after - 1
      in if length after < length n \<and> 0 < i \<and> i < length n - 1 then drop i n else [])"

text \<open>\<open>sep.join(parts)\<close> and \<open>str(path)\<close> of an absolute path.\<close>

fun join :: "string \<Rightarrow> string list \<Rightarrow> string" where
  "join sep [] = []"
| "join sep [x] = x"
| "join sep (x # y # ys) = x @ sep @ join sep (y # ys)"

definition path_str :: "path \<Rightarrow> string" where
  "path_str p = ''/'' @ join ''/'' p"

text \<open>\<open>str(n)\<close> of an integer.\<close>

function nat_str :: "nat \<Rightarrow> string" where
  "nat_str n =
     (if n < 10 then [''0123456789'' ! n]
      else nat_str (n div 10) @ [''0123456789'' ! (n mod 10)])"
  by pat_completeness auto
termination
  by (relation "measure id") auto

declare nat_str.simps [simp del]

definition int_str :: "int \<Rightarrow> string" where
  "int_str i = (if i < 0 then CHR ''-'' # nat_str (nat (- i)) else nat_str (nat i))"

subsection \<open>The outside world\<close>

text \<open>
  The world of a transform: the file system, and a log of the child processes started,
  each with its arguments and the file system it found. What a child process does is a
  parameter \<open>tool\<close>: from its arguments and the file system to its answer and the file
  system it leaves.
\<close>

record world =
  files :: filesystem
  calls :: "(string list \<times> filesystem) list"

type_synonym tool = "string list \<Rightarrow> filesystem \<Rightarrow> (error + completed) \<times> filesystem"

text \<open>\<open>asyncio.create_subprocess_exec(*cmd, ...)\<close> and \<open>process.communicate()\<close>.\<close>

definition invoke :: "tool \<Rightarrow> string list \<Rightarrow> world \<Rightarrow> (error + completed) \<times> world" where
  "invoke tool cmd w =
     (fst (tool cmd (files w)),
      \<lparr>files = snd (tool cmd (files w)), calls = calls w @ [(cmd, files w)]\<rparr>)"

text \<open>
  \<open>_run_subprocess\<close>. The message of the error is
  \<^verbatim>\<open>f"ffmpeg exited with {process.returncode}: {stderr.decode().strip() or stdout.decode().strip()}"\<close>.
\<close>

definition diagnostic :: "completed \<Rightarrow> error + str" where
  "diagnostic process =
     (case decode (stderr process) of
        Inl e \<Rightarrow> Inl e
      | Inr s \<Rightarrow>
          if strip s \<noteq> [] then Inr (strip s)
          else (case decode (stdout process) of
                  Inl e \<Rightarrow> Inl e
                | Inr t \<Rightarrow> Inr (strip t)))"

definition run_subprocess :: "tool \<Rightarrow> string list \<Rightarrow> world \<Rightarrow> (error + unit) \<times> world" where
  "run_subprocess tool cmd w =
     (case fst (invoke tool cmd w) of
        Inl e \<Rightarrow> (Inl e, snd (invoke tool cmd w))
      | Inr process \<Rightarrow>
          if returncode process \<noteq> 0 then
            (case diagnostic process of
               Inl e \<Rightarrow> (Inl e, snd (invoke tool cmd w))
             | Inr text \<Rightarrow>
                 (Inl (MediaProcessingError
                        (ascii (''ffmpeg exited with '' @ int_str (returncode process) @ '': '')
                         @ text)),
                  snd (invoke tool cmd w)))
          else (Inr (), snd (invoke tool cmd w)))"

subsection \<open>\<open>process_photo\<close>\<close>

text \<open>What the generators yield during one call: the hex digits of the UUID, the raw draws.\<close>

record photo_draws =
  photo_uuid :: string
  rotation_raw :: nat
  noise_raw :: nat

definition photo_suffix :: "runtime \<Rightarrow> path \<Rightarrow> string" where
  "photo_suffix rt source =
     (if str_lower rt (suffix source) = [] then ''.jpg'' else str_lower rt (suffix source))"

definition photo_codec :: "string \<Rightarrow> string" where
  "photo_codec sfx =
     (if sfx \<in> {''.png''} then ''png''
      else if sfx \<in> {''.jpeg'', ''.jpg''} then ''mjpeg''
      else ''mjpeg'')"

definition photo_output :: "runtime \<Rightarrow> photo_draws \<Rightarrow> path \<Rightarrow> path \<Rightarrow> path" where
  "photo_output rt d source destination = destination @ [photo_uuid d @ photo_suffix rt source]"

definition photo_cmd :: "runtime \<Rightarrow> photo_draws \<Rightarrow> path \<Rightarrow> path \<Rightarrow> string list" where
  "photo_cmd rt d source destination =
     [''ffmpeg'', ''-y'', ''-hide_banner'', ''-loglevel'', ''error'', ''-i'', path_str source,
      ''-map_metadata'', ''-1'', ''-vf'',
      join '',''
        [''rotate='' @ float_str rt (draw_rotation (rotation_raw d)) @ ''*PI/180:fillcolor=white@0'',
         ''crop=iw-2:ih-2'',
         ''noise=alls='' @ float_fixed rt 2 (draw_noise_level (noise_raw d)) @ '':allf=t''],
      ''-c:v'', photo_codec (photo_suffix rt source),
      path_str (photo_output rt d source destination)]"

definition process_photo ::
  "runtime \<Rightarrow> tool \<Rightarrow> photo_draws \<Rightarrow> path \<Rightarrow> path \<Rightarrow> world \<Rightarrow> (error + path) \<times> world" where
  "process_photo rt tool d source destination w =
     (case mkdir True True destination (files w) of
        Inl e \<Rightarrow> (Inl e, w)
      | Inr fs1 \<Rightarrow>
          (case run_subprocess tool (photo_cmd rt d source destination) (w\<lparr>files := fs1\<rparr>) of
             (Inl e, w') \<Rightarrow> (Inl e, w')
           | (Inr _, w') \<Rightarrow> (Inr (photo_output rt d source destination), w')))"

subsection \<open>\<open>process_video\<close>\<close>

record video_draws =
  video_uuid :: string
  bitrate_raw :: nat
  speed_raw :: nat
  gamma_raw :: nat

definition video_suffix :: "runtime \<Rightarrow> path \<Rightarrow> string" where
  "video_suffix rt source =
     (let sfx = (if str_lower rt (suffix source) = [] then ''.mp4''
                 else str_lower rt (suffix source))
      in if sfx \<in> {''.mp4'', ''.mov'', ''.mkv''} then sfx else ''.mp4'')"

definition video_output :: "runtime \<Rightarrow> video_draws \<Rightarrow> path \<Rightarrow> path \<Rightarrow> path" where
  "video_output rt d source destination = destination @ [video_uuid d @ video_suffix rt source]"

definition bitrate_cmd :: "path \<Rightarrow> string list" where
  "bitrate_cmd p =
     [''ffprobe'', ''-v'', ''error'', ''-select_streams'', ''v:0'', ''-show_entries'',
      ''stream=bit_rate'', ''-of'', ''default=noprint_wrappers=1:nokey=1'', path_str p]"

definition audio_cmd :: "path \<Rightarrow> string list" where
  "audio_cmd p =
     [''ffprobe'', ''-v'', ''error'', ''-select_streams'', ''a'', ''-show_entries'',
      ''stream=codec_type'', ''-of'', ''csv=p=0'', path_str p]"

definition video_cmd ::
  "runtime \<Rightarrow> video_draws \<Rightarrow> int \<Rightarrow> bool \<Rightarrow> path \<Rightarrow> path \<Rightarrow> string list" where
  "video_cmd rt d target has_audio source destination =
     [''ffmpeg'', ''-y'', ''-hide_banner'', ''-loglevel'', ''error'', ''-i'', path_str source,
      ''-map_metadata'', ''-1'', ''-vf'',
      join '',''
        [''setpts='' @ float_fixed rt 5 (1 / draw_speed_factor (speed_raw d)) @ ''*PTS'',
         ''eq=gamma='' @ float_fixed rt 4 (draw_gamma_shift (gamma_raw d))],
      ''-c:v'', ''libx264'', ''-preset'', ''medium'', ''-b:v'', int_str target,
      ''-movflags'', ''+faststart'']
     @ (if has_audio then
          [''-c:a'', ''aac'', ''-b:a'', ''192k'', ''-af'',
           ''atempo='' @ float_fixed rt 4 (draw_speed_factor (speed_raw d))]
        else [''-an''])
     @ [path_str (video_output rt d source destination)]"

definition process_video ::
  "runtime \<Rightarrow> tool \<Rightarrow> video_draws \<Rightarrow> path \<Rightarrow> path \<Rightarrow> world \<Rightarrow> (error + path) \<times> world" where
  "process_video rt tool d source destination w =
     (case mkdir True True destination (files w) of
        Inl e \<Rightarrow> (Inl e, w)
      | Inr fs1 \<Rightarrow>
          (let w1 = w\<lparr>files := fs1\<rparr>;
               w2 = snd (invoke tool (bitrate_cmd source) w1)
           in case probe_bitrate rt (fst (invoke tool (bitrate_cmd source) w1)) of
                Inl e \<Rightarrow> (Inl e, w2)
              | Inr bitrate \<Rightarrow>
                  (case target_bitrate bitrate (draw_bitrate_delta (bitrate_raw d)) of
                     Inl e \<Rightarrow> (Inl e, w2)
                   | Inr target \<Rightarrow>
                       (let w3 = snd (invoke tool (audio_cmd source) w2)
                        in case probe_has_audio (fst (invoke tool (audio_cmd source) w2)) of
                             Inl e \<Rightarrow> (Inl e, w3)
                           | Inr has_audio \<Rightarrow>
                               (case run_subprocess tool
                                       (video_cmd rt d target has_audio source destination) w3 of
                                  (Inl e, w') \<Rightarrow> (Inl e, w')
                                | (Inr _, w') \<Rightarrow>
                                    (Inr (video_output rt d source destination), w'))))))"

subsection \<open>Vocabulary of the properties\<close>

text \<open>
  The child processes a call started, in order, each with the file system it found:
  what the log of the world after the call holds beyond the log before it.
\<close>

definition started_by :: "world \<Rightarrow> world \<Rightarrow> (string list \<times> filesystem) list" where
  "started_by w w' = drop (length (calls w)) (calls w')"

text \<open>A tool keeps the directories when every directory is one still after it ran.\<close>

definition keeps_directories :: "tool \<Rightarrow> bool" where
  "keeps_directories tool = (\<forall>cmd fs p. is_dir fs p \<longrightarrow> is_dir (snd (tool cmd fs)) p)"

subsection \<open>Examples\<close>

text \<open>
  A file system with the directory \<open>/tmp\<close> only, and one where \<open>/tmp/processed\<close> exists
  already; a tool that succeeds, prints nothing and leaves the file system alone.
\<close>

definition tmp_only :: filesystem where
  "tmp_only = [[] \<mapsto> Dir, [''tmp''] \<mapsto> Dir]"

definition with_processed :: filesystem where
  "with_processed = [[] \<mapsto> Dir, [''tmp''] \<mapsto> Dir, [''tmp'', ''processed''] \<mapsto> Dir]"

definition quiet_tool :: tool where
  "quiet_tool cmd fs = (Inr \<lparr>returncode = 0, stdout = [], stderr = []\<rparr>, fs)"

definition some_photo_draws :: photo_draws where
  "some_photo_draws = \<lparr>photo_uuid = ''0f'', rotation_raw = 6, noise_raw = 2 ^ 52\<rparr>"

definition some_video_draws :: video_draws where
  "some_video_draws =
     \<lparr>video_uuid = ''1e'', bitrate_raw = 2 ^ 52, speed_raw = 2 ^ 52, gamma_raw = 2 ^ 52\<rparr>"

definition fresh_world :: world where
  "fresh_world = \<lparr>files = tmp_only, calls = []\<rparr>"

definition prepared_world :: world where
  "prepared_world = \<lparr>files = with_processed, calls = []\<rparr>"

section \<open>Properties of the processor\<close>

subsection \<open>What one iteration of the worker does\<close>

lemma settle_fields [simp]:
  "queue (worker_settle j out s) = queue s"
  "putters (worker_settle j out s) = putters s"
  "woken (worker_settle j out s) = woken s"
  "enqueued (worker_settle j out s) = enqueued s"
  "started (worker_settle j out s) = started s"
  "maxsize (worker_settle j out s) = maxsize s"
  "shutdown (worker_settle j out s) = shutdown s"
  "next_future (worker_settle j out s) = next_future s"
  by (auto simp: worker_settle_def loop_test_def split: sum.splits)

lemma wakeup_fields [simp]:
  "queue (wakeup_next_putter s) = queue s"
  "enqueued (wakeup_next_putter s) = enqueued s"
  "started (wakeup_next_putter s) = started s"
  "maxsize (wakeup_next_putter s) = maxsize s"
  "shutdown (wakeup_next_putter s) = shutdown s"
  "worker_task (wakeup_next_putter s) = worker_task s"
  "futures (wakeup_next_putter s) = futures s"
  "next_future (wakeup_next_putter s) = next_future s"
  by (auto simp: wakeup_next_putter_def split: list.splits)

lemma put_fields [simp]:
  "futures (put j s) = futures s"
  "next_future (put j s) = next_future s"
  "worker_task (put j s) = worker_task s"
  "started (put j s) = started s"
  "maxsize (put j s) = maxsize s"
  by (auto simp: put_def put_nowait_def)

lemma settle_futures:
  "futures (worker_settle j out s) =
     (if catchable out \<and> futures s (future j) = Pending
      then (futures s)(future j := settled out) else futures s)"
  by (cases out; cases "futures s (future j)")
     (auto simp: worker_settle_def try_body_def except_clause_def set_result_def
        set_exception_def loop_test_def settled_def split: sum.splits)

lemma settle_task:
  "worker_task (worker_settle j out s) =
     Some (if catchable out \<and> \<not> shutdown s then AtGet else Finished)"
  by (cases out; cases "futures s (future j)")
     (auto simp: worker_settle_def try_body_def except_clause_def set_result_def
        set_exception_def loop_test_def split: sum.splits)

lemmas step_defs =
  start_def stop_def enqueue_def resume_put_def cancel_caller_def worker_get_def
  transform_done_def Let_def

lemmas eval_defs =
  step_defs new_processor_def put_def put_nowait_def full_def wakeup_next_putter_def
  worker_settle_def try_body_def except_clause_def set_result_def set_exception_def
  loop_test_def

subsection \<open>Futures that are done, workers that have ended\<close>

lemma step_next_future: "next_future s \<le> next_future (step ev s)"
  by (cases ev) (auto simp: step_defs split: option.splits worker.splits list.splits)

lemma step_done_stable:
  "i < next_future s \<Longrightarrow> future_done (futures s i) \<Longrightarrow> futures (step ev s) i = futures s i"
  by (cases ev)
     (auto simp: step_defs settle_futures split: option.splits worker.splits list.splits)

lemma run_done_stable:
  "i < next_future s \<Longrightarrow> future_done (futures s i) \<Longrightarrow> futures (run evs s) i = futures s i"
proof (induction evs arbitrary: s)
  case Nil
  then show ?case by simp
next
  case (Cons ev evs)
  have "i < next_future (step ev s)"
    using Cons.prems(1) step_next_future [of s ev] by simp
  moreover have "futures (step ev s) i = futures s i"
    using Cons.prems by (rule step_done_stable)
  ultimately show ?case
    using Cons.IH [of "step ev s"] Cons.prems(2) by simp
qed

lemma finished_step:
  "worker_task s = Some Finished \<Longrightarrow>
   worker_task (step ev s) = Some Finished \<and> started (step ev s) = started s"
  by (cases ev) (auto simp: step_defs split: list.splits)

lemma finished_run:
  "worker_task s = Some Finished \<Longrightarrow>
   worker_task (run evs s) = Some Finished \<and> started (run evs s) = started s"
proof (induction evs arbitrary: s)
  case Nil
  then show ?case by simp
next
  case (Cons ev evs)
  from finished_step [OF Cons.prems, of ev] Cons.IH [of "step ev s"]
  show ?case by simp
qed

subsection \<open>The queue: order and bound\<close>

lemma fifo_step:
  "enqueued s = started s @ queue s \<Longrightarrow>
   enqueued (step ev s) = started (step ev s) @ queue (step ev s)"
  by (cases ev)
     (auto simp: step_defs put_def put_nowait_def split: option.splits worker.splits list.splits)

lemma fifo_run:
  "enqueued s = started s @ queue s \<Longrightarrow>
   enqueued (run evs s) = started (run evs s) @ queue (run evs s)"
  by (induction evs arbitrary: s) (simp_all add: fifo_step)

lemma started_step:
  "started (step ev s) = started s
   \<or> (queue s = hd (queue s) # queue (step ev s)
      \<and> started (step ev s) = started s @ [hd (queue s)])"
  by (cases ev)
     (auto simp: step_defs put_def put_nowait_def split: option.splits worker.splits list.splits)

lemma step_bounded:
  "0 < maxsize s \<Longrightarrow> int (length (queue s)) \<le> maxsize s \<Longrightarrow>
   int (length (queue (step ev s))) \<le> maxsize (step ev s) \<and> maxsize (step ev s) = maxsize s"
  by (cases ev)
     (auto simp: step_defs put_def put_nowait_def full_def
        split: option.splits worker.splits list.splits)

lemma run_bounded:
  "0 < maxsize s \<Longrightarrow> int (length (queue s)) \<le> maxsize s \<Longrightarrow>
   int (length (queue (run evs s))) \<le> maxsize (run evs s) \<and> maxsize (run evs s) = maxsize s"
proof (induction evs arbitrary: s)
  case Nil
  then show ?case by simp
next
  case (Cons ev evs)
  from step_bounded [OF Cons.prems, of ev] Cons.IH [of "step ev s"] Cons.prems(1)
  show ?case by simp
qed

subsection \<open>The invariant of the reachable states\<close>

lemma coherent_new: "coherent (new_processor m)"
  by (simp add: coherent_def held_def new_processor_def)

lemma coherent_start: "coherent s \<Longrightarrow> coherent (start s)"
  by (auto simp: coherent_def held_def start_def Let_def)

lemma coherent_settle:
  assumes "coherent s" and "worker_task s = Some (InJob j)"
  shows "coherent (worker_settle j out s)"
  using assms by (auto simp: coherent_def held_def settle_task)

lemma coherent_stop: "coherent s \<Longrightarrow> coherent (stop s)"
  by (auto simp: coherent_def held_def stop_def Let_def settle_task
      split: option.splits worker.splits)

lemma coherent_transform_done: "coherent s \<Longrightarrow> coherent (transform_done out s)"
  by (auto simp: transform_done_def coherent_settle split: option.splits worker.splits)

lemma coherent_enqueue: "coherent s \<Longrightarrow> coherent (enqueue k a b s)"
  by (auto simp: coherent_def held_def enqueue_def put_def put_nowait_def Let_def list_all_iff
      elim: less_SucI)

lemma filter_hd_mem: "filter P xs = j # r \<Longrightarrow> j \<in> set xs \<and> P j"
proof -
  assume a: "filter P xs = j # r"
  have "j \<in> set (filter P xs)" unfolding a by simp
  then show ?thesis by simp
qed

lemma coherent_resume_put: "coherent s \<Longrightarrow> coherent (resume_put fid s)"
proof (cases "filter (\<lambda>j. future j = fid) (woken s)")
  case Nil
  then show "coherent s \<Longrightarrow> ?thesis" by (simp add: resume_put_def)
next
  case (Cons j r)
  assume c: "coherent s"
  from filter_hd_mem [OF Cons] have j: "j \<in> set (woken s)" "future j = fid" by auto
  have nf: "fid \<notin> future ` set (filter (\<lambda>j. future j \<noteq> fid) (woken s))" by auto
  show ?thesis using c j nf Cons
    by (auto simp: resume_put_def coherent_def held_def put_def put_nowait_def list_all_iff
        distinct_map_filter)
qed

lemma coherent_wakeup: "coherent s \<Longrightarrow> coherent (wakeup_next_putter s)"
  by (auto simp: coherent_def held_def wakeup_next_putter_def list_all_iff split: list.splits)

lemma coherent_cancel_caller: "coherent s \<Longrightarrow> coherent (cancel_caller fid s)"
proof -
  assume c: "coherent s"
  have a: "coherent (s\<lparr>putters := filter (\<lambda>j. future j \<noteq> fid) (putters s)\<rparr>)"
    using c by (auto simp: coherent_def held_def list_all_iff distinct_map_filter)
  have b: "coherent (s\<lparr>woken := filter (\<lambda>j. future j \<noteq> fid) (woken s)\<rparr>)"
    using c by (auto simp: coherent_def held_def list_all_iff distinct_map_filter)
  have d: "coherent (s\<lparr>futures := (futures s)(fid := Cancelled)\<rparr>)"
    using c by (auto simp: coherent_def held_def list_all_iff)
  show ?thesis using a b d c coherent_wakeup [OF b]
    by (simp add: cancel_caller_def Let_def)
qed

lemma coherent_worker_get: "coherent s \<Longrightarrow> coherent (worker_get s)"
proof -
  assume c: "coherent s"
  show ?thesis
  proof (cases "worker_task s = Some AtGet")
    case False
    then show ?thesis using c by (simp add: worker_get_def)
  next
    case True
    show ?thesis
    proof (cases "queue s")
      case Nil
      then show ?thesis using c True by (simp add: worker_get_def)
    next
      case (Cons j rest)
      let ?s0 = "s\<lparr>queue := rest, started := started s @ [j], worker_task := Some (InJob j)\<rparr>"
      let ?s1 = "wakeup_next_putter (s\<lparr>queue := rest, started := started s @ [j]\<rparr>)"
      have c0: "coherent ?s0" using c True Cons
        by (auto simp: coherent_def held_def list_all_iff)
      have c1: "coherent (wakeup_next_putter ?s0)" by (rule coherent_wakeup [OF c0])
      have eq: "wakeup_next_putter ?s0 = ?s1\<lparr>worker_task := Some (InJob j)\<rparr>"
        by (simp add: wakeup_next_putter_def split: list.splits)
      have c2: "coherent (?s1\<lparr>worker_task := Some (InJob j)\<rparr>)" using c1 eq by simp
      have st: "worker_settle j out ?s1 =
                worker_settle j out (?s1\<lparr>worker_task := Some (InJob j)\<rparr>)" for out
        by (simp add: worker_settle_def loop_test_def split: sum.splits)
      have c3: "coherent (worker_settle j out ?s1)" for out
        unfolding st by (rule coherent_settle [OF c2]) simp
      show ?thesis using True Cons c2 c3 by (simp add: worker_get_def Let_def)
    qed
  qed
qed

lemma coherent_step: "coherent s \<Longrightarrow> coherent (step ev s)"
  by (cases ev)
     (simp_all add: coherent_start coherent_stop coherent_enqueue coherent_resume_put
        coherent_cancel_caller coherent_worker_get coherent_transform_done)

lemma coherent_run: "coherent s \<Longrightarrow> coherent (run evs s)"
  by (induction evs arbitrary: s) (simp_all add: coherent_step)

subsection \<open>Serving the queue\<close>

lemma serve_one:
  assumes "coherent s" and "worker_task s = Some AtGet" and "queue s = j # rest"
    and "catchable out"
  shows "worker_task (run [WorkerGet, TransformDone out] s) = Some AtGet
       \<and> queue (run [WorkerGet, TransformDone out] s) = rest
       \<and> futures (run [WorkerGet, TransformDone out] s) = resolve (futures s) (j, out)"
proof -
  have ns: "\<not> shutdown s" using assms(1,2) by (simp add: coherent_def)
  show ?thesis
  proof (cases "kind j = ''photo'' \<or> kind j = ''video''")
    case True
    then show ?thesis using assms ns
      by (auto simp: worker_get_def transform_done_def Let_def settle_task settle_futures
          resolve_def job_outcome_def)
  next
    case False
    then show ?thesis using assms ns
      by (auto simp: worker_get_def transform_done_def Let_def settle_task settle_futures
          resolve_def job_outcome_def)
  qed
qed

lemma drain:
  assumes "coherent s" and "worker_task s = Some AtGet" and "length outs = length (queue s)"
    and "list_all catchable outs"
  shows "worker_task (run (service outs) s) = Some AtGet
       \<and> queue (run (service outs) s) = []
       \<and> futures (run (service outs) s) = foldl resolve (futures s) (zip (queue s) outs)"
  using assms
proof (induction outs arbitrary: s)
  case Nil
  then show ?case by simp
next
  case (Cons out outs)
  then obtain j rest where q: "queue s = j # rest" by (cases "queue s") auto
  let ?s1 = "run [WorkerGet, TransformDone out] s"
  have one: "worker_task ?s1 = Some AtGet \<and> queue ?s1 = rest
             \<and> futures ?s1 = resolve (futures s) (j, out)"
    using serve_one [OF Cons.prems(1,2) q] Cons.prems(4) by simp
  have c1: "coherent ?s1" using Cons.prems(1) by (rule coherent_run)
  have "worker_task (run (service outs) ?s1) = Some AtGet
       \<and> queue (run (service outs) ?s1) = []
       \<and> futures (run (service outs) ?s1) = foldl resolve (futures ?s1) (zip (queue ?s1) outs)"
    using Cons.prems(3,4) q one by (intro Cons.IH [OF c1]) auto
  then show ?case using one q by simp
qed

lemma resolve_at:
  "resolve f (j, out) i =
     (if f (future j) = Pending \<and> i = future j then settled (job_outcome j out) else f i)"
  by (simp add: resolve_def)

lemma foldl_resolve_other:
  "i \<notin> future ` set js \<Longrightarrow> foldl resolve f (zip js outs) i = f i"
proof (induction js arbitrary: f outs)
  case Nil
  then show ?case by simp
next
  case (Cons j js)
  show ?case
  proof (cases outs)
    case Nil
    then show ?thesis by simp
  next
    case (Cons out outs')
    have "foldl resolve (resolve f (j, out)) (zip js outs') i = resolve f (j, out) i"
      using Cons.prems by (intro Cons.IH) auto
    then show ?thesis using Cons Cons.prems by (auto simp: resolve_at)
  qed
qed

lemma foldl_resolve_nth:
  "distinct (map future js) \<Longrightarrow> length outs = length js \<Longrightarrow> k < length js \<Longrightarrow>
   foldl resolve f (zip js outs) (future (js ! k)) =
     (if f (future (js ! k)) = Pending then settled (job_outcome (js ! k) (outs ! k))
      else f (future (js ! k)))"
proof (induction js arbitrary: f outs k)
  case Nil
  then show ?case by simp
next
  case (Cons j js)
  from Cons.prems(2) obtain out outs' where o: "outs = out # outs'" by (cases outs) auto
  show ?case
  proof (cases k)
    case 0
    have "future j \<notin> future ` set js" using Cons.prems(1) by auto
    then have "foldl resolve (resolve f (j, out)) (zip js outs') (future j) =
               resolve f (j, out) (future j)"
      by (rule foldl_resolve_other)
    then show ?thesis using 0 o by (simp add: resolve_at)
  next
    case (Suc k')
    have "js ! k' \<in> set js" using Cons.prems(3) Suc by simp
    then have "future (js ! k') \<in> future ` set js" by (rule imageI)
    then have ne: "future (js ! k') \<noteq> future j" using Cons.prems(1) by auto
    have "foldl resolve (resolve f (j, out)) (zip js outs') (future (js ! k')) =
       (if resolve f (j, out) (future (js ! k')) = Pending
        then settled (job_outcome (js ! k') (outs' ! k'))
        else resolve f (j, out) (future (js ! k')))"
      using Cons.prems Suc o by (intro Cons.IH) auto
    then show ?thesis using Suc o ne by (simp add: resolve_at)
  qed
qed

subsection \<open>Shutdown\<close>

text \<open>
  C1, as amended. \<open>stop\<close> sets the shutdown flag and ends the worker task, and it
  resolves no result handle: every future, that of the job in flight and those of the
  queued jobs included, keeps the state it had, so a pending one stays pending; the
  queued jobs stay in the queue and the suspended producers stay suspended.
\<close>

theorem stop_resolves_no_future:
  "shutdown (stop s)
   \<and> futures (stop s) = futures s
   \<and> queue (stop s) = queue s
   \<and> putters (stop s) = putters s
   \<and> woken (stop s) = woken s
   \<and> (worker_task s \<noteq> None \<longrightarrow> worker_task (stop s) = Some Finished)"
  by (auto simp: stop_def Let_def settle_futures settle_task split: option.splits worker.splits)

theorem stop_resolves_no_future_witness:
  "worker_task three_jobs \<noteq> None
   \<and> worker_task (stop three_jobs) = Some Finished
   \<and> futures (stop three_jobs) = futures three_jobs
   \<and> queue (stop three_jobs) = queue three_jobs"
proof -
  have running: "worker_task three_jobs \<noteq> None"
    by (simp add: three_jobs_def eval_defs)
  from running stop_resolves_no_future [of three_jobs] show ?thesis by simp
qed

text \<open>
  C1 as stated fails: with job 0 in flight and job 1 queued, \<open>stop\<close> leaves both
  futures pending; neither holds a cancellation error.
\<close>

theorem stop_leaves_futures_pending:
  "map future (in_flight (worker_task before_stop)) = [0]
   \<and> map future (queue before_stop) = [1]
   \<and> futures (stop before_stop) 0 = Pending
   \<and> futures (stop before_stop) 1 = Pending
   \<and> futures (stop before_stop) 0 \<noteq> Exception CancelledError
   \<and> futures (stop before_stop) 1 \<noteq> Exception CancelledError
   \<and> worker_task (stop before_stop) = Some Finished"
  by (simp add: before_stop_def eval_defs)

subsection \<open>Single assignment of the result handle\<close>

text \<open>
  C2, as amended. A result handle is resolved at most once: a future that is done
  never changes again, whatever happens, and the worker's guarded \<open>set_result\<close> and
  \<open>set_exception\<close> never raise. A job whose transform returns, or raises an
  \<open>Exception\<close>, while the worker runs has its pending handle resolved with exactly that
  outcome. A job in flight when \<open>stop\<close> is called keeps its handle as it was, and the
  worker that held it has ended.
\<close>

theorem future_set_at_most_once:
  "(i < next_future s \<longrightarrow> future_done (futures s i) \<longrightarrow> futures (run evs s) i = futures s i)
   \<and> try_body job (Inr r) futs \<noteq> Inl InvalidStateError
   \<and> except_clause job e futs \<noteq> Inl InvalidStateError
   \<and> (worker_task s = Some (InJob job) \<longrightarrow> futures s (future job) = Pending \<longrightarrow>
        catchable outcome \<longrightarrow>
        futures (transform_done outcome s) (future job) = settled outcome)
   \<and> (worker_task s = Some (InJob job) \<longrightarrow>
        futures (stop s) (future job) = futures s (future job)
        \<and> worker_task (stop s) = Some Finished)"
proof -
  have a: "i < next_future s \<longrightarrow> future_done (futures s i) \<longrightarrow>
           futures (run evs s) i = futures s i"
    by (simp add: run_done_stable)
  have b: "try_body job (Inr r) futs \<noteq> Inl InvalidStateError"
    by (simp add: try_body_def set_result_def)
  have c: "except_clause job e futs \<noteq> Inl InvalidStateError"
    by (simp add: except_clause_def set_exception_def)
  have d: "worker_task s = Some (InJob job) \<longrightarrow> futures s (future job) = Pending \<longrightarrow>
        catchable outcome \<longrightarrow>
        futures (transform_done outcome s) (future job) = settled outcome"
    by (simp add: transform_done_def settle_futures)
  have e: "worker_task s = Some (InJob job) \<longrightarrow>
        futures (stop s) (future job) = futures s (future job)
        \<and> worker_task (stop s) = Some Finished"
    by (simp add: stop_def Let_def settle_futures settle_task)
  from a b c d e show ?thesis by blast
qed

theorem future_set_at_most_once_witness:
  "worker_task three_jobs = Some (InJob (hd (started three_jobs)))
   \<and> future (hd (started three_jobs)) = 0
   \<and> futures three_jobs 0 = Pending
   \<and> catchable (Inr [''tmp'', ''processed'', ''0f.jpg''])
   \<and> futures (transform_done (Inr [''tmp'', ''processed'', ''0f.jpg'']) three_jobs) 0
       = Result [''tmp'', ''processed'', ''0f.jpg'']
   \<and> 0 < next_future (transform_done (Inr [''tmp'', ''processed'', ''0f.jpg'']) three_jobs)
   \<and> futures
        (run [TransformDone (Inl ValueError), CancelCaller 0, Stop, Start]
           (transform_done (Inr [''tmp'', ''processed'', ''0f.jpg'']) three_jobs)) 0
       = Result [''tmp'', ''processed'', ''0f.jpg'']
   \<and> futures (stop three_jobs) 0 = Pending
   \<and> worker_task (stop three_jobs) = Some Finished"
proof -
  let ?job = "hd (started three_jobs)"
  let ?p = "[''tmp'', ''processed'', ''0f.jpg'']"
  let ?s = "transform_done (Inr ?p) three_jobs"
  have w: "worker_task three_jobs = Some (InJob ?job)" "future ?job = 0"
    "futures three_jobs 0 = Pending"
    by (simp_all add: three_jobs_def eval_defs)
  have c: "catchable (Inr ?p)" by simp
  from future_set_at_most_once
    [of 0 three_jobs "[]" ?job ?p "futures three_jobs" ValueError "Inr ?p"] w c
  have r: "futures ?s 0 = Result ?p" "futures (stop three_jobs) 0 = Pending"
    "worker_task (stop three_jobs) = Some Finished"
    by (simp_all add: settled_def)
  have n: "0 < next_future ?s"
    by (simp add: three_jobs_def eval_defs)
  from future_set_at_most_once
    [of 0 ?s "[TransformDone (Inl ValueError), CancelCaller 0, Stop, Start]"
        ?job ?p "futures ?s" ValueError "Inr ?p"] r(1) n
  have k: "futures (run [TransformDone (Inl ValueError), CancelCaller 0, Stop, Start] ?s) 0
           = Result ?p"
    by simp
  from w c r n k show ?thesis by simp
qed

text \<open>
  C2 as stated fails: a job in flight when the processor is stopped is left
  unresolved. Its future is still pending after every later step offered, the worker
  has ended and no part of the processor holds the job any more.
\<close>

theorem in_flight_future_left_pending:
  "futures stopped_in_flight 0 = Pending
   \<and> worker_task stopped_in_flight = Some Finished
   \<and> held stopped_in_flight = []"
  by (simp add: stopped_in_flight_def held_def eval_defs)

subsection \<open>Restart\<close>

text \<open>
  C3 does not hold of the code. \<open>stop\<close> leaves the ended task in \<open>_worker_task\<close>, so
  the test \<^verbatim>\<open>if self._worker_task is None\<close> of a later \<open>start\<close> fails: after
  \<open>start\<close>, \<open>stop\<close>, \<open>start\<close> no worker runs, whatever happens next, and no job is ever
  taken from the queue. A photo job submitted then stays in the queue with its future
  pending.
\<close>

theorem restart_does_not_relaunch:
  "worker_task (run (Start # evs) (stop (start (new_processor m)))) = Some Finished
   \<and> started (run (Start # evs) (stop (start (new_processor m)))) = []
   \<and> shutdown (start (stop (start (new_processor m)))) = False
   \<and> worker_task restarted = Some Finished
   \<and> map future (queue restarted) = [0]
   \<and> futures restarted 0 = Pending"
proof -
  let ?s = "start (stop (start (new_processor m)))"
  have f: "worker_task ?s = Some Finished" "started ?s = []" "shutdown ?s = False"
    by (simp_all add: eval_defs)
  from finished_run [OF f(1), of evs] f(2)
  have "worker_task (run evs ?s) = Some Finished \<and> started (run evs ?s) = []" by simp
  moreover have "worker_task restarted = Some Finished \<and> map future (queue restarted) = [0]
     \<and> futures restarted 0 = Pending"
    by (simp add: restarted_def eval_defs)
  ultimately show ?thesis using f(3) by simp
qed

subsection \<open>Order of service\<close>

lemma wakeup_accounted:
  "woken (wakeup_next_putter s) @ putters (wakeup_next_putter s) = woken s @ putters s"
  by (simp add: wakeup_next_putter_def split: list.splits)

lemma all_accounted_new: "all_accounted (new_processor m)"
  by (simp add: all_accounted_def accounted_def new_processor_def)

lemma all_accounted_enqueue: "all_accounted s \<Longrightarrow> all_accounted (enqueue k a b s)"
  by (auto simp: all_accounted_def accounted_def enqueue_def put_def put_nowait_def Let_def
      lessThan_Suc)

lemma all_accounted_resume_put: "all_accounted s \<Longrightarrow> all_accounted (resume_put fid s)"
proof (cases "filter (\<lambda>j. future j = fid) (woken s)")
  case Nil
  then show "all_accounted s \<Longrightarrow> ?thesis" by (simp add: resume_put_def)
next
  case (Cons j r)
  assume a: "all_accounted s"
  from filter_hd_mem [OF Cons] have j: "j \<in> set (woken s)" "future j = fid" by auto
  have nf: "fid \<notin> future ` set (filter (\<lambda>j. future j \<noteq> fid) (woken s))" by auto
  have un: "future ` set (filter (\<lambda>j. future j \<noteq> fid) (woken s)) \<union> {fid}
            = future ` set (woken s)"
    using j by auto
  show ?thesis using a j nf un Cons
    by (auto simp: resume_put_def all_accounted_def accounted_def put_def put_nowait_def
        distinct_map_filter)
qed

lemma all_accounted_worker_get: "all_accounted s \<Longrightarrow> all_accounted (worker_get s)"
proof -
  assume a: "all_accounted s"
  have "accounted (worker_get s) = accounted s \<and> next_future (worker_get s) = next_future s"
    using wakeup_accounted
    by (auto simp: worker_get_def accounted_def Let_def split: list.splits)
  then show ?thesis using a by (simp add: all_accounted_def)
qed

lemma all_accounted_step:
  "all_accounted s \<Longrightarrow> \<not> is_cancel ev \<Longrightarrow> all_accounted (step ev s)"
proof (cases ev)
  case Start
  then show "all_accounted s \<Longrightarrow> ?thesis"
    by (simp add: all_accounted_def accounted_def start_def Let_def)
next
  case Stop
  then show "all_accounted s \<Longrightarrow> ?thesis"
    by (simp add: all_accounted_def accounted_def stop_def Let_def
        split: option.splits worker.splits)
next
  case (Enqueue k a b)
  then show "all_accounted s \<Longrightarrow> ?thesis" by (simp add: all_accounted_enqueue)
next
  case (ResumePut fid)
  then show "all_accounted s \<Longrightarrow> ?thesis" by (simp add: all_accounted_resume_put)
next
  case (CancelCaller fid)
  then show "\<not> is_cancel ev \<Longrightarrow> ?thesis" by simp
next
  case WorkerGet
  then show "all_accounted s \<Longrightarrow> ?thesis" by (simp add: all_accounted_worker_get)
next
  case (TransformDone out)
  then show "all_accounted s \<Longrightarrow> ?thesis"
    by (simp add: all_accounted_def accounted_def transform_done_def
        split: option.splits worker.splits)
qed

lemma all_accounted_run:
  "all_accounted s \<Longrightarrow> list_all (\<lambda>ev. \<not> is_cancel ev) evs \<Longrightarrow> all_accounted (run evs s)"
  by (induction evs arbitrary: s) (simp_all add: all_accounted_step)

text \<open>
  C4, as amended. The worker begins the jobs in exactly the order in which \<open>queue.put\<close>
  appended them to the queue: in every reachable state the jobs begun, in the order
  they were begun, followed by the jobs in the queue, are the jobs enqueued, in the
  order of their enqueueing; a step begins at most one job, the head of the queue. No
  job is dropped: an enqueued job has been begun or is in the queue, and in a state
  reached without the cancellation of a caller every job submitted is, exactly once,
  begun, in the queue or held by a producer in \<open>put\<close>. A job submitted while the queue
  has room is enqueued at once, behind the jobs enqueued before. A job submitted to a
  full queue waits with its producer: when the producer is woken and runs, the job is
  enqueued if the queue has room, and the producer is suspended again, last in line,
  if the queue is full; so a job submitted later can be begun before it.
\<close>

theorem worker_fifo:
  "enqueued (run evs (new_processor m))
     = started (run evs (new_processor m)) @ queue (run evs (new_processor m))
   \<and> (list_all (\<lambda>ev. \<not> is_cancel ev) evs \<longrightarrow> all_accounted (run evs (new_processor m)))
   \<and> (started (step ev s) = started s
      \<or> (queue s = hd (queue s) # queue (step ev s)
         \<and> started (step ev s) = started s @ [hd (queue s)]))
   \<and> (if full s then
         enqueued (enqueue k source destination s) = enqueued s
         \<and> putters (enqueue k source destination s)
             = putters s @ [\<lparr>kind = k, source_path = source, destination_dir = destination,
                              future = next_future s\<rparr>]
       else enqueued (enqueue k source destination s)
              = enqueued s @ [\<lparr>kind = k, source_path = source, destination_dir = destination,
                                future = next_future s\<rparr>])
   \<and> (filter (\<lambda>j. future j = fid) (woken s) = [p] \<longrightarrow>
        (if full s then
           enqueued (resume_put fid s) = enqueued s
           \<and> putters (resume_put fid s) = putters s @ [p]
         else enqueued (resume_put fid s) = enqueued s @ [p]))"
proof -
  have "enqueued (new_processor m) = started (new_processor m) @ queue (new_processor m)"
    by (simp add: new_processor_def)
  then have a: "enqueued (run evs (new_processor m))
     = started (run evs (new_processor m)) @ queue (run evs (new_processor m))"
    by (rule fifo_run)
  have b: "list_all (\<lambda>ev. \<not> is_cancel ev) evs \<longrightarrow> all_accounted (run evs (new_processor m))"
    using all_accounted_run [OF all_accounted_new] by blast
  have c: "if full s then
         enqueued (enqueue k source destination s) = enqueued s
         \<and> putters (enqueue k source destination s)
             = putters s @ [\<lparr>kind = k, source_path = source, destination_dir = destination,
                              future = next_future s\<rparr>]
       else enqueued (enqueue k source destination s)
              = enqueued s @ [\<lparr>kind = k, source_path = source, destination_dir = destination,
                                future = next_future s\<rparr>]"
    by (simp add: enqueue_def put_def put_nowait_def full_def Let_def)
  have d: "filter (\<lambda>j. future j = fid) (woken s) = [p] \<longrightarrow>
        (if full s then
           enqueued (resume_put fid s) = enqueued s
           \<and> putters (resume_put fid s) = putters s @ [p]
         else enqueued (resume_put fid s) = enqueued s @ [p])"
    by (simp add: resume_put_def put_def put_nowait_def full_def)
  from a b c d started_step [of ev s] show ?thesis by blast
qed

theorem worker_fifo_witness:
  "list_all (\<lambda>ev. \<not> is_cancel ev)
     [Start,
      Enqueue ''photo'' [''tmp'', ''input_a.jpg''] [''tmp'', ''processed''],
      Enqueue ''video'' [''tmp'', ''input_b.mp4''] [''tmp'', ''processed''],
      WorkerGet,
      Enqueue ''photo'' [''tmp'', ''input_c.png''] [''tmp'', ''processed''],
      ResumePut 1]
   \<and> all_accounted slot_taken
   \<and> map future (accounted slot_taken) = [0, 2, 1]
   \<and> next_future slot_taken = 3
   \<and> enqueued slot_taken = started slot_taken @ queue slot_taken
   \<and> full one_waiting
   \<and> map future (enqueued one_waiting) = [0]
   \<and> map future
        (enqueued (enqueue ''photo'' [''tmp'', ''input_c.png''] [''tmp'', ''processed''] one_waiting))
      = [0]
   \<and> map future
        (putters (enqueue ''photo'' [''tmp'', ''input_c.png''] [''tmp'', ''processed''] one_waiting))
      = [1, 2]
   \<and> \<not> full slot_freed
   \<and> map future (woken slot_freed) = [1]
   \<and> map future (enqueued slot_freed) = [0]
   \<and> map future (enqueued (resume_put 1 slot_freed)) = [0, 1]
   \<and> map future (enqueued (enqueue ''photo'' [''tmp'', ''input_c.png''] [''tmp'', ''processed'']
                               slot_freed)) = [0, 2]
   \<and> full (enqueue ''photo'' [''tmp'', ''input_c.png''] [''tmp'', ''processed''] slot_freed)
   \<and> map future
        (putters (resume_put 1
           (enqueue ''photo'' [''tmp'', ''input_c.png''] [''tmp'', ''processed''] slot_freed)))
      = [1]
   \<and> map future
        (enqueued (resume_put 1
           (enqueue ''photo'' [''tmp'', ''input_c.png''] [''tmp'', ''processed''] slot_freed)))
      = [0, 2]"
proof -
  let ?evs = "[Start,
      Enqueue ''photo'' [''tmp'', ''input_a.jpg''] [''tmp'', ''processed''],
      Enqueue ''video'' [''tmp'', ''input_b.mp4''] [''tmp'', ''processed''],
      WorkerGet,
      Enqueue ''photo'' [''tmp'', ''input_c.png''] [''tmp'', ''processed''],
      ResumePut 1]"
  let ?b = "\<lparr>kind = ''video'', source_path = [''tmp'', ''input_b.mp4''],
             destination_dir = [''tmp'', ''processed''], future = 1\<rparr>"
  let ?c = "enqueue ''photo'' [''tmp'', ''input_c.png''] [''tmp'', ''processed'']"
  have r: "slot_taken = run ?evs (new_processor 1)"
    by (simp add: slot_taken_def slot_freed_def)
  have n: "list_all (\<lambda>ev. \<not> is_cancel ev) ?evs" by simp
  have v: "map future (accounted slot_taken) = [0, 2, 1]" "next_future slot_taken = 3"
    by (simp_all add: slot_taken_def slot_freed_def accounted_def eval_defs)
  have o: "full one_waiting" "map future (enqueued one_waiting) = [0]"
    "map future (putters one_waiting) = [1]" "next_future one_waiting = 2"
    by (simp_all add: one_waiting_def eval_defs)
  have f: "\<not> full slot_freed" "woken slot_freed = [?b]"
    "map future (enqueued slot_freed) = [0]" "next_future slot_freed = 2"
    by (simp_all add: slot_freed_def eval_defs)
  have g: "full (?c slot_freed)" "woken (?c slot_freed) = [?b]" "putters (?c slot_freed) = []"
    by (simp_all add: slot_freed_def eval_defs)
  note t1 = worker_fifo
    [where evs = ?evs and m = 1 and s = one_waiting and k = "''photo''"
       and source = "[''tmp'', ''input_c.png'']" and destination = "[''tmp'', ''processed'']"
       and fid = 1 and p = ?b and ev = WorkerGet]
  note t2 = worker_fifo
    [where evs = ?evs and m = 1 and s = slot_freed and k = "''photo''"
       and source = "[''tmp'', ''input_c.png'']" and destination = "[''tmp'', ''processed'']"
       and fid = 1 and p = ?b and ev = WorkerGet]
  note t3 = worker_fifo
    [where evs = ?evs and m = 1 and s = "?c slot_freed" and k = "''photo''"
       and source = "[''tmp'', ''input_c.png'']" and destination = "[''tmp'', ''processed'']"
       and fid = 1 and p = ?b and ev = WorkerGet]
  have a: "all_accounted slot_taken" "enqueued slot_taken = started slot_taken @ queue slot_taken"
    unfolding r using t1 n by blast+
  have e1: "map future (enqueued (?c one_waiting)) = [0]"
    "map future (putters (?c one_waiting)) = [1, 2]"
    using t1 o by simp_all
  have e2: "map future (enqueued (resume_put 1 slot_freed)) = [0, 1]"
    "map future (enqueued (?c slot_freed)) = [0, 2]"
    using t2 f by simp_all
  have e3: "map future (putters (resume_put 1 (?c slot_freed))) = [1]"
    "map future (enqueued (resume_put 1 (?c slot_freed))) = [0, 2]"
    using t3 g e2(2) by simp_all
  from n a v o(1,2) e1 f(1,3) f(2) e2 g(1) e3 show ?thesis by simp
qed

text \<open>
  C4 as stated fails. At capacity 1 the jobs are submitted in the order of their
  futures 0, 1, 2; the producer of job 1 is woken when the worker takes job 0, job 2 is
  submitted before that producer runs and takes the slot, and the worker begins job 2
  before job 1.
\<close>

theorem later_submission_overtakes:
  "map future (started overtaken) = [0, 2, 1]
   \<and> map future (started overtaken) \<noteq> [0, 1, 2]
   \<and> next_future overtaken = 3
   \<and> maxsize overtaken = 1"
  by (simp add: overtaken_def slot_taken_def slot_freed_def eval_defs)

subsection \<open>Capacity and backpressure\<close>

lemma maxsize_step: "maxsize (step ev s) = maxsize s"
  by (cases ev)
     (auto simp: step_defs put_def put_nowait_def split: option.splits worker.splits list.splits)

lemma maxsize_run: "maxsize (run evs s) = maxsize s"
  by (induction evs arbitrary: s) (simp_all add: maxsize_step)

lemma unbounded_queue:
  "maxsize s \<le> 0 \<Longrightarrow>
   length (queue (run (replicate n (Enqueue k a b)) s)) = length (queue s) + n"
proof (induction n arbitrary: s)
  case 0
  then show ?case by simp
next
  case (Suc n)
  have m: "maxsize (enqueue k a b s) \<le> 0"
    using Suc.prems maxsize_step [of "Enqueue k a b" s] by simp
  have q: "length (queue (enqueue k a b s)) = Suc (length (queue s))"
    using Suc.prems by (simp add: enqueue_def put_def put_nowait_def full_def Let_def)
  show ?case using Suc.IH [OF m] q by simp
qed

text \<open>
  C5, as amended. For a positive configured capacity the queue never holds more jobs
  than the capacity, in any reachable state. A capacity of zero or less makes the queue
  unbounded: it is never full, and any number of jobs submitted all stand in the queue.
  Without \<open>QUEUE_MAXSIZE\<close> in the environment the capacity is 3. A producer that submits
  while the queue is full is suspended with its job outside the queue. When the worker
  takes a job it wakes the first suspended producer; a woken producer that runs while
  the queue has room appends its job at the tail, and one that finds the queue full
  again is suspended again, last in line, its job still outside the queue. \<open>stop\<close>
  releases no suspended producer.
\<close>

theorem queue_within_capacity:
  "(0 < m \<longrightarrow> int (length (queue (run evs (new_processor m)))) \<le> m)
   \<and> (z \<le> 0 \<longrightarrow>
        \<not> full (run evs (new_processor z))
        \<and> length (queue (run (replicate n (Enqueue k source destination)) (new_processor z)))
            = n)
   \<and> queue_maxsize rt None = Inr 3
   \<and> (full s \<longrightarrow>
        queue (enqueue k source destination s) = queue s
        \<and> map future (putters (enqueue k source destination s))
            = map future (putters s) @ [next_future s])
   \<and> (worker_task s = Some AtGet \<longrightarrow> queue s = job # rest \<longrightarrow> putters s = p # ps \<longrightarrow>
        queue (worker_get s) = rest
        \<and> putters (worker_get s) = ps
        \<and> woken (worker_get s) = woken s @ [p])
   \<and> (filter (\<lambda>j. future j = fid) (woken s) = [p] \<longrightarrow>
        woken (resume_put fid s) = filter (\<lambda>j. future j \<noteq> fid) (woken s)
        \<and> (if full s then
             queue (resume_put fid s) = queue s
             \<and> putters (resume_put fid s) = putters s @ [p]
           else queue (resume_put fid s) = queue s @ [p]
                \<and> putters (resume_put fid s) = putters s))
   \<and> putters (stop s) = putters s
   \<and> woken (stop s) = woken s
   \<and> queue (stop s) = queue s"
proof -
  have a: "0 < m \<longrightarrow> int (length (queue (run evs (new_processor m)))) \<le> m"
  proof
    assume m: "0 < m"
    have "0 < maxsize (new_processor m)"
      and "int (length (queue (new_processor m))) \<le> maxsize (new_processor m)"
      using m by (simp_all add: new_processor_def)
    from run_bounded [OF this, of evs]
    show "int (length (queue (run evs (new_processor m)))) \<le> m"
      by (simp add: new_processor_def)
  qed
  have u: "z \<le> 0 \<longrightarrow>
        \<not> full (run evs (new_processor z))
        \<and> length (queue (run (replicate n (Enqueue k source destination)) (new_processor z)))
            = n"
  proof
    assume z: "z \<le> 0"
    have "maxsize (run evs (new_processor z)) = z"
      by (simp add: maxsize_run new_processor_def)
    then have nf: "\<not> full (run evs (new_processor z))" using z by (simp add: full_def)
    have "maxsize (new_processor z) \<le> 0" using z by (simp add: new_processor_def)
    from unbounded_queue [OF this, of n k source destination]
    have "length (queue (run (replicate n (Enqueue k source destination)) (new_processor z)))
            = n"
      by (simp add: new_processor_def)
    with nf show "\<not> full (run evs (new_processor z))
        \<and> length (queue (run (replicate n (Enqueue k source destination)) (new_processor z)))
            = n"
      by simp
  qed
  have b: "queue_maxsize rt None = Inr 3"
    by (simp add: queue_maxsize_def py_int_def parse_decimal_def ascii_def to_ascii_def
        c_space_def c_digit_def digits_value_def)
  have c: "full s \<longrightarrow>
        queue (enqueue k source destination s) = queue s
        \<and> map future (putters (enqueue k source destination s))
            = map future (putters s) @ [next_future s]"
    by (simp add: enqueue_def put_def full_def Let_def)
  have d: "worker_task s = Some AtGet \<longrightarrow> queue s = job # rest \<longrightarrow> putters s = p # ps \<longrightarrow>
        queue (worker_get s) = rest
        \<and> putters (worker_get s) = ps
        \<and> woken (worker_get s) = woken s @ [p]"
    by (simp add: worker_get_def Let_def wakeup_next_putter_def)
  have e: "filter (\<lambda>j. future j = fid) (woken s) = [p] \<longrightarrow>
        woken (resume_put fid s) = filter (\<lambda>j. future j \<noteq> fid) (woken s)
        \<and> (if full s then
             queue (resume_put fid s) = queue s
             \<and> putters (resume_put fid s) = putters s @ [p]
           else queue (resume_put fid s) = queue s @ [p]
                \<and> putters (resume_put fid s) = putters s)"
    by (simp add: resume_put_def put_def put_nowait_def full_def)
  have f: "putters (stop s) = putters s \<and> woken (stop s) = woken s \<and> queue (stop s) = queue s"
    by (simp add: stop_def Let_def split: option.splits worker.splits)
  from a u b c d e f show ?thesis by blast
qed

theorem queue_within_capacity_witness:
  "(0::int) < 1
   \<and> int (length (queue (run [Enqueue ''video'' [''tmp'', ''input_c.mp4''] [''tmp'', ''processed'']]
                     one_waiting))) \<le> 1
   \<and> (0::int) \<le> 0
   \<and> \<not> full unbounded
   \<and> length (queue (run (replicate (Suc (Suc (Suc 0)))
                 (Enqueue ''video'' [''tmp'', ''input_c.mp4''] [''tmp'', ''processed'']))
               (new_processor 0))) = Suc (Suc (Suc 0))
   \<and> full one_waiting
   \<and> map future (queue (enqueue ''video'' [''tmp'', ''input_c.mp4''] [''tmp'', ''processed'']
                     one_waiting)) = [0]
   \<and> map future (putters (enqueue ''video'' [''tmp'', ''input_c.mp4''] [''tmp'', ''processed'']
                     one_waiting)) = [1, 2]
   \<and> worker_task one_waiting = Some AtGet
   \<and> map future (queue one_waiting) = [0]
   \<and> map future (putters one_waiting) = [1]
   \<and> queue (worker_get one_waiting) = []
   \<and> putters (worker_get one_waiting) = []
   \<and> map future (woken (worker_get one_waiting)) = [1]
   \<and> \<not> full (worker_get one_waiting)
   \<and> map future (queue (resume_put 1 (worker_get one_waiting))) = [1]
   \<and> woken (resume_put 1 (worker_get one_waiting)) = []
   \<and> full (enqueue ''video'' [''tmp'', ''input_c.mp4''] [''tmp'', ''processed'']
             (worker_get one_waiting))
   \<and> map future
        (queue (resume_put 1
           (enqueue ''video'' [''tmp'', ''input_c.mp4''] [''tmp'', ''processed'']
              (worker_get one_waiting)))) = [2]
   \<and> map future
        (putters (resume_put 1
           (enqueue ''video'' [''tmp'', ''input_c.mp4''] [''tmp'', ''processed'']
              (worker_get one_waiting)))) = [1]"
proof -
  let ?ev = "Enqueue ''video'' [''tmp'', ''input_c.mp4''] [''tmp'', ''processed'']"
  let ?c = "enqueue ''video'' [''tmp'', ''input_c.mp4''] [''tmp'', ''processed'']"
  let ?evs = "[Start,
          Enqueue ''photo'' [''tmp'', ''input_a.jpg''] [''tmp'', ''processed''],
          Enqueue ''video'' [''tmp'', ''input_b.mp4''] [''tmp'', ''processed''], ?ev]"
  let ?two = "[Enqueue ''photo'' [''tmp'', ''input_a.jpg''] [''tmp'', ''processed''],
          Enqueue ''video'' [''tmp'', ''input_b.mp4''] [''tmp'', ''processed'']]"
  let ?p = "\<lparr>kind = ''video'', source_path = [''tmp'', ''input_b.mp4''],
             destination_dir = [''tmp'', ''processed''], future = 1\<rparr>"
  let ?j = "\<lparr>kind = ''photo'', source_path = [''tmp'', ''input_a.jpg''],
             destination_dir = [''tmp'', ''processed''], future = 0\<rparr>"
  have r: "run [?ev] one_waiting = run ?evs (new_processor 1)"
    by (simp add: one_waiting_def)
  have s: "full one_waiting" "worker_task one_waiting = Some AtGet"
    "queue one_waiting = [?j]" "putters one_waiting = [?p]" "woken one_waiting = []"
    "next_future one_waiting = 2"
    by (simp_all add: one_waiting_def eval_defs)
  note t = queue_within_capacity
    [where m = 1 and evs = ?evs and z = 0 and n = "Suc (Suc (Suc 0))" and k = "''video''"
       and source = "[''tmp'', ''input_c.mp4'']" and destination = "[''tmp'', ''processed'']"
       and rt = plain_runtime and s = one_waiting and job = ?j and rest = "[]" and p = ?p
       and ps = "[]" and fid = 1]
  have g: "queue (worker_get one_waiting) = []" "putters (worker_get one_waiting) = []"
    "woken (worker_get one_waiting) = [?p]"
    using t s by simp_all
  have nf: "\<not> full (worker_get one_waiting)"
    using g(1) by (simp add: full_def)
  note u = queue_within_capacity
    [where m = 1 and evs = ?two and z = 0 and n = "Suc (Suc (Suc 0))" and k = "''video''"
       and source = "[''tmp'', ''input_c.mp4'']" and destination = "[''tmp'', ''processed'']"
       and rt = plain_runtime and s = "worker_get one_waiting" and job = ?j and rest = "[]"
       and p = ?p and ps = "[]" and fid = 1]
  have h: "queue (resume_put 1 (worker_get one_waiting)) = [?p]"
    "woken (resume_put 1 (worker_get one_waiting)) = []"
    using u g nf by simp_all
  have z: "\<not> full unbounded"
    "length (queue (run (replicate (Suc (Suc (Suc 0))) ?ev) (new_processor 0)))
       = Suc (Suc (Suc 0))"
    using u by (simp_all add: unbounded_def)
  have k: "full (?c (worker_get one_waiting))" "woken (?c (worker_get one_waiting)) = [?p]"
    "map future (queue (?c (worker_get one_waiting))) = [2]"
    "putters (?c (worker_get one_waiting)) = []"
    by (simp_all add: one_waiting_def eval_defs)
  note v = queue_within_capacity
    [where m = 1 and evs = ?evs and z = 0 and n = "Suc (Suc (Suc 0))" and k = "''video''"
       and source = "[''tmp'', ''input_c.mp4'']" and destination = "[''tmp'', ''processed'']"
       and rt = plain_runtime and s = "?c (worker_get one_waiting)" and job = ?j
       and rest = "[]" and p = ?p and ps = "[]" and fid = 1]
  have l: "map future (queue (resume_put 1 (?c (worker_get one_waiting)))) = [2]"
    "map future (putters (resume_put 1 (?c (worker_get one_waiting)))) = [1]"
    using v k by simp_all
  have b: "int (length (queue (run [?ev] one_waiting))) \<le> 1"
    unfolding r using t by simp
  have e: "map future (queue (?c one_waiting)) = [0]"
     "map future (putters (?c one_waiting)) = [1, 2]"
    using t s by simp_all
  from s g nf h z k(1) l b e show ?thesis by simp
qed

text \<open>
  C5 as stated fails three times. A producer suspended on the full queue of capacity
  1 is still suspended after \<open>stop\<close>, its job outside the queue. A processor configured
  with capacity 0 holds two jobs in its queue. And a freed slot does not complete the
  enqueue of the producer it wakes: the worker frees the slot and wakes the producer of
  job 1, job 2 takes the slot, and the producer is suspended again with job 1 still
  outside the queue.
\<close>

theorem stop_releases_no_producer:
  "full one_waiting
   \<and> map future (putters one_waiting) = [1]
   \<and> map future (putters (stop one_waiting)) = [1]
   \<and> map future (queue (stop one_waiting)) = [0]
   \<and> woken (stop one_waiting) = []
   \<and> maxsize unbounded = 0
   \<and> length (queue unbounded) = 2
   \<and> queue slot_freed = []
   \<and> map future (woken slot_freed) = [1]
   \<and> map future (queue slot_taken) = [2]
   \<and> map future (putters slot_taken) = [1]
   \<and> woken slot_taken = []"
  by (simp add: one_waiting_def unbounded_def slot_taken_def slot_freed_def eval_defs)

subsection \<open>Isolation of failures\<close>

text \<open>
  C6. Take any reachable state with a job in flight whose transform raises an
  \<open>Exception\<close>, and let the transforms of the jobs in the queue end with any outcomes
  that the handler can catch (a job of an unknown kind raises the worker's own
  \<open>MediaProcessingError\<close>). Serving them one after the other, the worker loop never
  ends: it is back in \<open>queue.get()\<close> with the queue empty. The failing job's pending
  future holds its error, the pending future of every queued job holds that job's own
  outcome, and no other future has changed.
\<close>

theorem failure_isolated:
  assumes "s = run evs (new_processor m)"
    and "worker_task s = Some (InJob failing)"
    and "is_Exception e"
    and "length outcomes = length (queue s)"
    and "list_all catchable outcomes"
    and "s' = run (TransformDone (Inl e) # service outcomes) s"
  shows "worker_task s' = Some AtGet
       \<and> queue s' = []
       \<and> (futures s (future failing) = Pending \<longrightarrow>
            futures s' (future failing) = Exception e)
       \<and> (\<forall>k < length (queue s). futures s (future (queue s ! k)) = Pending \<longrightarrow>
            futures s' (future (queue s ! k))
              = settled (job_outcome (queue s ! k) (outcomes ! k)))
       \<and> (\<forall>i. i \<noteq> future failing \<longrightarrow> i \<notin> future ` set (queue s) \<longrightarrow>
            futures s' i = futures s i)"
proof -
  have c: "coherent s"
    unfolding assms(1) by (rule coherent_run) (rule coherent_new)
  have ns: "\<not> shutdown s" using c assms(2) by (simp add: coherent_def)
  have d: "distinct (map future (failing # queue s))"
    using c assms(2) by (simp add: coherent_def held_def)
  let ?s1 = "transform_done (Inl e) s"
  have t1: "worker_task ?s1 = Some AtGet" "queue ?s1 = queue s"
    using assms(2,3) ns by (simp_all add: transform_done_def settle_task)
  have f1: "futures ?s1 =
      (if futures s (future failing) = Pending
       then (futures s)(future failing := Exception e) else futures s)"
    using assms(2,3) by (simp add: transform_done_def settle_futures settled_def)
  have c1: "coherent ?s1" using c by (rule coherent_transform_done)
  have s': "s' = run (service outcomes) ?s1" using assms(6) by simp
  from drain [OF c1 t1(1)] assms(4,5) t1(2)
  have dr: "worker_task s' = Some AtGet" "queue s' = []"
    "futures s' = foldl resolve (futures ?s1) (zip (queue s) outcomes)"
    unfolding s' by simp_all
  have nq: "future failing \<notin> future ` set (queue s)" using d by auto
  have a: "futures s (future failing) = Pending \<longrightarrow>
            futures s' (future failing) = Exception e"
    unfolding dr(3) using foldl_resolve_other [OF nq] f1 by simp
  have b: "futures s (future (queue s ! k)) = Pending \<longrightarrow>
            futures s' (future (queue s ! k))
              = settled (job_outcome (queue s ! k) (outcomes ! k))"
    if k: "k < length (queue s)" for k
  proof -
    have "queue s ! k \<in> set (queue s)" using k by simp
    then have "future (queue s ! k) \<in> future ` set (queue s)" by (rule imageI)
    then have ne: "future (queue s ! k) \<noteq> future failing" using nq by auto
    have dq: "distinct (map future (queue s))" using d by simp
    show ?thesis
      unfolding dr(3) using foldl_resolve_nth [OF dq assms(4) k] f1 ne by simp
  qed
  have o: "futures s' i = futures s i"
    if "i \<noteq> future failing" and "i \<notin> future ` set (queue s)" for i
    unfolding dr(3) using foldl_resolve_other [OF that(2)] f1 that(1) by simp
  from dr(1,2) a b o show ?thesis by blast
qed

theorem failure_isolated_witness:
  "worker_task three_jobs = Some (InJob (hd (started three_jobs)))
   \<and> future (hd (started three_jobs)) = 0
   \<and> map future (queue three_jobs) = [1, 2]
   \<and> map kind (queue three_jobs) = [''gif'', ''video'']
   \<and> worker_task
        (run (TransformDone (Inl (MediaProcessingError (ascii ''ffmpeg exited with 1: bad input'')))
              # service [Inr [''tmp'', ''processed'', ''1f.gif''],
                         Inr [''tmp'', ''processed'', ''2f.mp4'']])
           three_jobs) = Some AtGet
   \<and> map (futures
        (run (TransformDone (Inl (MediaProcessingError (ascii ''ffmpeg exited with 1: bad input'')))
              # service [Inr [''tmp'', ''processed'', ''1f.gif''],
                         Inr [''tmp'', ''processed'', ''2f.mp4'']])
           three_jobs)) [0, 1, 2, 3]
      = [Exception (MediaProcessingError (ascii ''ffmpeg exited with 1: bad input'')),
         Exception (MediaProcessingError (ascii ''Unknown job type: gif'')),
         Result [''tmp'', ''processed'', ''2f.mp4''],
         Pending]"
proof -
  let ?e = "MediaProcessingError (ascii ''ffmpeg exited with 1: bad input'')"
  let ?outs = "[Inr [''tmp'', ''processed'', ''1f.gif''], Inr [''tmp'', ''processed'', ''2f.mp4'']]"
  let ?evs = "[Start,
          Enqueue ''photo'' [''tmp'', ''input_a.jpg''] [''tmp'', ''processed''],
          Enqueue ''gif'' [''tmp'', ''input_c.gif''] [''tmp'', ''processed''],
          Enqueue ''video'' [''tmp'', ''input_b.mp4''] [''tmp'', ''processed''],
          WorkerGet]"
  let ?j0 = "\<lparr>kind = ''photo'', source_path = [''tmp'', ''input_a.jpg''],
             destination_dir = [''tmp'', ''processed''], future = 0\<rparr>"
  let ?j1 = "\<lparr>kind = ''gif'', source_path = [''tmp'', ''input_c.gif''],
             destination_dir = [''tmp'', ''processed''], future = 1\<rparr>"
  let ?j2 = "\<lparr>kind = ''video'', source_path = [''tmp'', ''input_b.mp4''],
             destination_dir = [''tmp'', ''processed''], future = 2\<rparr>"
  let ?s' = "run (TransformDone (Inl ?e) # service ?outs) three_jobs"
  have s: "three_jobs = run ?evs (new_processor 3)" by (simp add: three_jobs_def)
  have w: "worker_task three_jobs = Some (InJob ?j0)" "started three_jobs = [?j0]"
    "queue three_jobs = [?j1, ?j2]"
    "futures three_jobs 0 = Pending" "futures three_jobs 1 = Pending"
    "futures three_jobs 2 = Pending" "futures three_jobs 3 = Pending"
    by (simp_all add: three_jobs_def eval_defs)
  have h: "is_Exception ?e" "length ?outs = length (queue three_jobs)"
    "list_all catchable ?outs"
    using w(3) by simp_all
  note t = failure_isolated [OF s w(1) h refl]
  have r0: "worker_task ?s' = Some AtGet" using t by blast
  have r1: "futures ?s' 0 = Exception ?e" using t w(4) by simp
  have k: "\<forall>k < length (queue three_jobs).
      futures three_jobs (future (queue three_jobs ! k)) = Pending \<longrightarrow>
      futures ?s' (future (queue three_jobs ! k))
        = settled (job_outcome (queue three_jobs ! k) (?outs ! k))"
    using t by blast
  have r2: "futures ?s' 1 = Exception (MediaProcessingError (ascii ''Unknown job type: gif''))"
    using k [rule_format, of 0] w by (simp add: settled_def job_outcome_def)
  have r3: "futures ?s' 2 = Result [''tmp'', ''processed'', ''2f.mp4'']"
    using k [rule_format, of 1] w by (simp add: settled_def job_outcome_def)
  have o: "\<forall>i. i \<noteq> future ?j0 \<longrightarrow> i \<notin> future ` set (queue three_jobs) \<longrightarrow>
      futures ?s' i = futures three_jobs i"
    using t by blast
  have r4: "futures ?s' 3 = Pending"
    using o [rule_format, of 3] w by simp
  from w r0 r1 r2 r3 r4 show ?thesis by simp
qed

section \<open>Properties of the probes and the draws\<close>

subsection \<open>Audio presence\<close>

text \<open>
  C7 does not hold of the code. \<open>_probe_has_audio\<close> never reads the exit code: a probe
  that exits with code 1 after printing a stream line is judged to have audio, and the
  verdict is the same for every exit code. (\<open>_probe_bitrate\<close>, beside it, tests
  \<^verbatim>\<open>process.returncode == 0\<close>.) Nor is the decoding guarded: output that is not
  UTF-8 raises \<open>UnicodeDecodeError\<close> to the transform.
\<close>

theorem probe_has_audio_ignores_exit_code:
  "probe_has_audio
     (Inr \<lparr>returncode = 1, stdout = ''audio'' @ [CHR 0x0A],
           stderr = ''moov atom not found''\<rparr>) = Inr True
   \<and> probe_has_audio (Inr (process\<lparr>returncode := code\<rparr>)) = probe_has_audio (Inr process)
   \<and> probe_has_audio (Inr \<lparr>returncode = 0, stdout = [CHR 0xFF], stderr = []\<rparr>)
       = Inl UnicodeDecodeError"
  by (simp add: probe_has_audio_def decode_def strip_def isspace_def)

subsection \<open>Bitrate\<close>

lemma parse_bitrate_error: "parse_bitrate rt out = Inl e \<Longrightarrow> is_ValueError e"
  by (auto simp: parse_bitrate_def decode_def py_int_def is_ValueError_def
      split: sum.splits option.splits)

lemma random_float_range: "0 \<le> random_float raw \<and> random_float raw < 1"
proof -
  have "raw mod 2 ^ 53 < 2 ^ 53" by simp
  then have "real (raw mod 2 ^ 53) < 2 ^ 53"
    by (metis of_nat_less_iff of_nat_numeral of_nat_power)
  then show ?thesis by (simp add: random_float_def)
qed

lemma uniform_range: "a \<le> b \<Longrightarrow> a \<le> uniform a b raw \<and> uniform a b raw \<le> b"
proof -
  assume ab: "a \<le> b"
  from random_float_range [of raw]
  have r: "0 \<le> random_float raw" "random_float raw \<le> 1" by simp_all
  have "0 \<le> (b - a) * random_float raw" using ab r(1) by simp
  moreover have "(b - a) * random_float raw \<le> (b - a) * 1"
    using ab r(2) by (intro mult_left_mono) simp_all
  ultimately show ?thesis by (simp add: uniform_def)
qed

lemma float_limit_margin: "(21 / 20) * 2 ^ 1023 < float_limit"
  by (simp add: float_limit_def)

lemma target_bitrate_floor: "target_bitrate bitrate delta = Inr t \<Longrightarrow> 300000 \<le> t"
  by (auto simp: target_bitrate_def split: sum.splits)

lemma target_bitrate_total:
  assumes "\<bar>bitrate\<bar> \<le> 2 ^ 1023" and "- 0.05 \<le> delta" and "delta \<le> 0.05"
  shows "\<exists>t. target_bitrate bitrate delta = Inr t"
proof -
  have b: "\<bar>real_of_int bitrate\<bar> \<le> 2 ^ 1023"
  proof -
    have "real_of_int \<bar>bitrate\<bar> \<le> real_of_int (2 ^ 1023)"
      using assms(1) by (rule of_int_le_iff [THEN iffD2])
    then show ?thesis by simp
  qed
  have f: "\<bar>1 + delta\<bar> \<le> 21 / 20" using assms(2,3) by simp
  have "\<bar>real_of_int bitrate * (1 + delta)\<bar> = \<bar>real_of_int bitrate\<bar> * \<bar>1 + delta\<bar>"
    by (rule abs_mult)
  also have "\<dots> \<le> 2 ^ 1023 * (21 / 20)"
    using b f by (intro mult_mono) simp_all
  finally have p: "\<bar>real_of_int bitrate * (1 + delta)\<bar> < float_limit"
    using float_limit_margin by simp
  have "\<bar>real_of_int bitrate\<bar> < float_limit"
    using b float_limit_margin by simp
  then show ?thesis using p
    by (simp add: target_bitrate_def float_of_int_def int_of_float_def)
qed

text \<open>
  C8. When the bitrate probe exits with a code other than 0, or prints something that
  does not parse as an integer, the base bitrate is exactly 2000000; the probe of a
  process that ran always returns a bitrate and raises nothing. The jitter drawn lies
  within 5 percent either way. Whatever the base bitrate and the jitter, a target
  bitrate that is computed is an integer of at least 300000; and one is computed
  whenever the base bitrate is at most \<open>2^1023\<close> in magnitude (beyond the range of
  floats the multiplication raises \<open>OverflowError\<close>).
\<close>

theorem bitrate_default_and_floor:
  "(returncode process \<noteq> 0 \<longrightarrow> probe_bitrate rt (Inr process) = Inr 2000000)
   \<and> ((\<forall>n. parse_bitrate rt (stdout process) \<noteq> Inr n) \<longrightarrow>
        probe_bitrate rt (Inr process) = Inr 2000000)
   \<and> (\<exists>n. probe_bitrate rt (Inr process) = Inr n)
   \<and> - 0.05 \<le> draw_bitrate_delta raw \<and> draw_bitrate_delta raw \<le> 0.05
   \<and> (target_bitrate bitrate delta = Inr t \<longrightarrow> 300000 \<le> t)
   \<and> (\<bar>bitrate\<bar> \<le> 2 ^ 1023 \<longrightarrow> - 0.05 \<le> delta \<longrightarrow> delta \<le> 0.05 \<longrightarrow>
        (\<exists>t. target_bitrate bitrate delta = Inr t \<and> 300000 \<le> t))"
proof -
  have a: "returncode process \<noteq> 0 \<longrightarrow> probe_bitrate rt (Inr process) = Inr 2000000"
    by (simp add: probe_bitrate_def)
  have b: "(\<forall>n. parse_bitrate rt (stdout process) \<noteq> Inr n) \<longrightarrow>
        probe_bitrate rt (Inr process) = Inr 2000000"
    by (auto simp: probe_bitrate_def dest: parse_bitrate_error split: sum.splits)
  have c: "\<exists>n. probe_bitrate rt (Inr process) = Inr n"
    by (auto simp: probe_bitrate_def dest: parse_bitrate_error split: sum.splits)
  have d: "- 0.05 \<le> draw_bitrate_delta raw \<and> draw_bitrate_delta raw \<le> 0.05"
    unfolding draw_bitrate_delta_def by (rule uniform_range) simp
  have e: "target_bitrate bitrate delta = Inr t \<longrightarrow> 300000 \<le> t"
    by (simp add: target_bitrate_floor)
  have f: "\<bar>bitrate\<bar> \<le> 2 ^ 1023 \<longrightarrow> - 0.05 \<le> delta \<longrightarrow> delta \<le> 0.05 \<longrightarrow>
        (\<exists>t. target_bitrate bitrate delta = Inr t \<and> 300000 \<le> t)"
    using target_bitrate_total [of bitrate delta] target_bitrate_floor [of bitrate delta]
    by blast
  from a b c d e f show ?thesis by blast
qed

theorem bitrate_default_and_floor_witness:
  "probe_bitrate plain_runtime
     (Inr \<lparr>returncode = 1, stdout = ''2500000'' @ [CHR 0x0A], stderr = []\<rparr>) = Inr 2000000
   \<and> probe_bitrate plain_runtime
     (Inr \<lparr>returncode = 0, stdout = ''N/A'' @ [CHR 0x0A], stderr = []\<rparr>) = Inr 2000000
   \<and> draw_bitrate_delta (2 ^ 52) = 0
   \<and> target_bitrate 2000000 (- (1 / 32)) = Inr 1937500
   \<and> (300000::int) \<le> 1937500
   \<and> target_bitrate 100000 0.05 = Inr 300000"
proof -
  let ?p1 = "\<lparr>returncode = 1, stdout = ''2500000'' @ [CHR 0x0A], stderr = []\<rparr>"
  let ?p2 = "\<lparr>returncode = 0, stdout = ''N/A'' @ [CHR 0x0A], stderr = []\<rparr>"
  have n: "\<forall>n. parse_bitrate plain_runtime (stdout ?p2) \<noteq> Inr n"
    by (simp add: parse_bitrate_def decode_def strip_def isspace_def py_int_def
        parse_decimal_def to_ascii_def plain_runtime_def c_space_def c_digit_def)
  have t1: "target_bitrate 2000000 (- (1 / 32)) = Inr 1937500"
    by (simp add: target_bitrate_def float_of_int_def int_of_float_def float_limit_def)
  have t2: "target_bitrate 100000 0.05 = Inr 300000"
    by (simp add: target_bitrate_def float_of_int_def int_of_float_def float_limit_def)
  have d: "draw_bitrate_delta (2 ^ 52) = 0"
    by (simp add: draw_bitrate_delta_def uniform_def random_float_def)
  from bitrate_default_and_floor [of ?p1 plain_runtime 0 2000000 "- (1 / 32)" 1937500]
  have a: "probe_bitrate plain_runtime (Inr ?p1) = Inr 2000000" by simp
  from bitrate_default_and_floor [of ?p2 plain_runtime 0 2000000 "- (1 / 32)" 1937500] n
  have b: "probe_bitrate plain_runtime (Inr ?p2) = Inr 2000000" by blast
  from bitrate_default_and_floor [of ?p1 plain_runtime 0 2000000 "- (1 / 32)" 1937500] t1
  have c: "(300000::int) \<le> 1937500" by blast
  from a b c d t1 t2 show ?thesis by simp
qed

subsection \<open>The draws of the image transform\<close>

text \<open>
  C9. Whatever the generator yields, the rotation drawn by \<open>process_photo\<close> is one
  of -0.3, -0.2, 0.2 and 0.3, so never zero, and the noise level drawn lies in the
  closed interval from 1.0 to 2.0.
\<close>

theorem photo_draws_in_range:
  "draw_rotation raw \<in> {- 0.3, - 0.2, 0.2, 0.3}
   \<and> draw_rotation raw \<noteq> 0
   \<and> 1.0 \<le> draw_noise_level raw'
   \<and> draw_noise_level raw' \<le> 2.0"
proof -
  have "raw mod 4 < 4" by simp
  then consider "raw mod 4 = 0" | "raw mod 4 = 1" | "raw mod 4 = 2" | "raw mod 4 = 3"
    by linarith
  then have r: "draw_rotation raw \<in> {- 0.3, - 0.2, 0.2, 0.3} \<and> draw_rotation raw \<noteq> 0"
    by cases (simp_all add: draw_rotation_def choice_def)
  have "1.0 \<le> draw_noise_level raw' \<and> draw_noise_level raw' \<le> 2.0"
    unfolding draw_noise_level_def by (rule uniform_range) simp
  with r show ?thesis by simp
qed

section \<open>Properties of the transforms\<close>

subsection \<open>Path resolution\<close>

lemma walk_snoc:
  "walk fs q (cs @ [c]) =
     (case walk fs q cs of
        Some e \<Rightarrow> Some e
      | None \<Rightarrow>
          (case fs (q @ cs) of
             None \<Rightarrow> Some FileNotFoundError
           | Some File \<Rightarrow> Some NotADirectoryError
           | Some Dir \<Rightarrow> None))"
  by (induction cs arbitrary: q) (auto split: option.splits node.splits)

lemma clear_snoc: "clear fs q (cs @ [c]) = (clear fs q cs \<and> fs (q @ cs @ [c]) \<noteq> Some File)"
  by (induction cs arbitrary: q) auto

lemma walk_upd: "length q + length cs \<le> length r \<Longrightarrow> walk (fs(r \<mapsto> v)) q cs = walk fs q cs"
proof (induction cs arbitrary: q)
  case Nil
  then show ?case by simp
next
  case (Cons c cs)
  have "q \<noteq> r" using Cons.prems by auto
  then have l: "(fs(r \<mapsto> v)) q = fs q" by simp
  have ih: "walk (fs(r \<mapsto> v)) (q @ [c]) cs = walk fs (q @ [c]) cs"
    using Cons.prems by (intro Cons.IH) simp
  show ?case by (simp only: walk.simps l ih)
qed

lemma clear_walk: "clear fs q cs \<Longrightarrow> walk fs q cs \<noteq> Some NotADirectoryError"
  by (induction cs arbitrary: q) (auto split: option.splits node.splits)

lemma walk_error: "walk fs q cs = Some e \<Longrightarrow> e = FileNotFoundError \<or> e = NotADirectoryError"
  by (induction cs arbitrary: q) (auto split: option.splits node.splits)

lemma is_dir_snoc: "is_dir fs p \<Longrightarrow> walk fs [] (p @ [c]) = None"
  by (simp add: is_dir_def walk_snoc)

lemma os_mkdir_is_dir: "os_mkdir p fs = Inr fs' \<Longrightarrow> is_dir fs' p"
proof -
  assume a: "os_mkdir p fs = Inr fs'"
  then have w: "walk fs [] p = None" and f: "fs' = fs(p \<mapsto> Dir)"
    by (auto simp: os_mkdir_def split: option.splits)
  have "walk (fs(p \<mapsto> Dir)) [] p = walk fs [] p" by (rule walk_upd) simp
  then show ?thesis using w f by (simp add: is_dir_def)
qed

subsection \<open>\<open>Path.mkdir\<close>\<close>

lemma mkdir_is_dir: "mkdir parents exist_ok p fs = Inr fs' \<Longrightarrow> is_dir fs' p"
proof (induction parents exist_ok p fs arbitrary: fs' rule: mkdir.induct)
  case (1 parents exist_ok p fs)
  note eq = mkdir.simps [of parents exist_ok p fs]
  show ?case
  proof (cases "os_mkdir p fs")
    case (Inr fs'')
    then have "fs' = fs''" using "1.prems" [unfolded eq] by simp
    then show ?thesis using Inr by (simp add: os_mkdir_is_dir)
  next
    case (Inl e)
    show ?thesis
    proof (cases "e = FileNotFoundError")
      case fnf: True
      show ?thesis
      proof (cases "parents \<and> butlast p \<noteq> p")
        case pb: True
        from "1.prems" [unfolded eq] Inl fnf pb obtain fs1 where
          m1: "mkdir True True (butlast p) fs = Inr fs1" and
          m2: "mkdir False exist_ok p fs1 = Inr fs'"
          by (auto split: sum.splits)
        from "1.IH"(2) [OF Inl fnf pb m1 m2] show ?thesis .
      next
        case False
        then show ?thesis using "1.prems" [unfolded eq] Inl fnf by auto
      qed
    next
      case False
      then show ?thesis using "1.prems" [unfolded eq] Inl by (auto split: if_splits)
    qed
  qed
qed

lemma mkdir_existing: "is_dir fs p \<Longrightarrow> mkdir parents True p fs = Inr fs"
  by (simp add: mkdir.simps [of parents True p fs] os_mkdir_def is_dir_def)

lemma mkdir_only_dirs:
  "mkdir parents exist_ok p fs = Inr fs' \<Longrightarrow> fs' q = fs q \<or> fs' q = Some Dir"
proof (induction parents exist_ok p fs arbitrary: fs' rule: mkdir.induct)
  case (1 parents exist_ok p fs)
  note eq = mkdir.simps [of parents exist_ok p fs]
  show ?case
  proof (cases "os_mkdir p fs")
    case (Inr fs'')
    then have "fs' = fs''" using "1.prems" [unfolded eq] by simp
    then show ?thesis using Inr by (auto simp: os_mkdir_def split: option.splits)
  next
    case (Inl e)
    show ?thesis
    proof (cases "e = FileNotFoundError")
      case fnf: True
      show ?thesis
      proof (cases "parents \<and> butlast p \<noteq> p")
        case pb: True
        from "1.prems" [unfolded eq] Inl fnf pb obtain fs1 where
          m1: "mkdir True True (butlast p) fs = Inr fs1" and
          m2: "mkdir False exist_ok p fs1 = Inr fs'"
          by (auto split: sum.splits)
        from "1.IH"(1) [OF Inl fnf pb m1] "1.IH"(2) [OF Inl fnf pb m1 m2]
        show ?thesis by auto
      next
        case False
        then show ?thesis using "1.prems" [unfolded eq] Inl fnf by auto
      qed
    next
      case False
      then show ?thesis using "1.prems" [unfolded eq] Inl by (auto split: if_splits)
    qed
  qed
qed

lemma mkdir_last:
  assumes d: "is_dir fs1 p" and f: "fs1 (p @ [c]) \<noteq> Some File"
  shows "\<exists>fs'. mkdir False True (p @ [c]) fs1 = Inr fs'"
proof -
  have w: "walk fs1 [] (p @ [c]) = None" using d by (rule is_dir_snoc)
  show ?thesis
  proof (cases "fs1 (p @ [c])")
    case None
    then show ?thesis using w
      by (simp add: mkdir.simps [of False True "p @ [c]" fs1] os_mkdir_def)
  next
    case (Some n)
    then have "n = Dir" using f by (cases n) auto
    then have "is_dir fs1 (p @ [c])" using Some w by (simp add: is_dir_def)
    then show ?thesis by (simp add: mkdir_existing)
  qed
qed

lemma mkdir_clear: "clear fs [] p \<Longrightarrow> \<exists>fs'. mkdir True True p fs = Inr fs'"
proof (induction p arbitrary: fs rule: rev_induct)
  case Nil
  show ?case
  proof (cases "fs []")
    case None
    then show ?thesis by (simp add: mkdir.simps [of True True "[]" fs] os_mkdir_def)
  next
    case (Some n)
    then have "n = Dir" using Nil by (cases n) auto
    then have "is_dir fs []" using Some by (simp add: is_dir_def)
    then show ?thesis by (simp add: mkdir_existing)
  qed
next
  case (snoc c p)
  from snoc.prems have cp: "clear fs [] p" and nf: "fs (p @ [c]) \<noteq> Some File"
    by (simp_all add: clear_snoc)
  note eq = mkdir.simps [of True True "p @ [c]" fs]
  show ?case
  proof (cases "os_mkdir (p @ [c]) fs")
    case (Inr fs')
    then show ?thesis by (simp add: eq)
  next
    case (Inl e)
    show ?thesis
    proof (cases "e = FileNotFoundError")
      case True
      from snoc.IH [OF cp] obtain fs1 where m1: "mkdir True True p fs = Inr fs1" by blast
      have d: "is_dir fs1 p" using m1 by (rule mkdir_is_dir)
      have "fs1 (p @ [c]) = fs (p @ [c]) \<or> fs1 (p @ [c]) = Some Dir"
        using m1 by (rule mkdir_only_dirs)
      then have "fs1 (p @ [c]) \<noteq> Some File" using nf by auto
      from mkdir_last [OF d this] obtain fs' where "mkdir False True (p @ [c]) fs1 = Inr fs'"
        by blast
      then show ?thesis using Inl True m1 by (simp add: eq)
    next
      case False
      have "walk fs [] (p @ [c]) \<noteq> Some NotADirectoryError"
        using snoc.prems by (rule clear_walk)
      then have w: "walk fs [] (p @ [c]) = None" and x: "fs (p @ [c]) \<noteq> None"
        using Inl False walk_error [of fs "[]" "p @ [c]"]
        by (auto simp: os_mkdir_def split: option.splits)
      from x obtain n where n: "fs (p @ [c]) = Some n" by auto
      then have "n = Dir" using nf by (cases n) auto
      with n have "fs (p @ [c]) = Some Dir" by simp
      then have "is_dir fs (p @ [c])" using w by (simp add: is_dir_def)
      then show ?thesis by (simp add: mkdir_existing)
    qed
  qed
qed

subsection \<open>The transforms and the destination directory\<close>

lemma invoke_world:
  "calls (snd (invoke tool cmd w)) = calls w @ [(cmd, files w)]"
  "files (snd (invoke tool cmd w)) = snd (tool cmd (files w))"
  by (simp_all add: invoke_def)

lemma run_subprocess_world: "snd (run_subprocess tool cmd w) = snd (invoke tool cmd w)"
  by (simp add: run_subprocess_def split: sum.splits)

lemma process_photo_fails:
  "mkdir True True destination (files w) = Inl e \<Longrightarrow>
   process_photo rt tool d source destination w = (Inl e, w)"
  by (simp add: process_photo_def)

lemma process_photo_world:
  "mkdir True True destination (files w) = Inr fs1 \<Longrightarrow>
   snd (process_photo rt tool d source destination w)
     = snd (invoke tool (photo_cmd rt d source destination) (w\<lparr>files := fs1\<rparr>))"
  by (simp add: process_photo_def run_subprocess_world [symmetric] split: prod.splits sum.splits)

lemma process_photo_result:
  "fst (process_photo rt tool d source destination w) = Inr out \<Longrightarrow>
   out = photo_output rt d source destination"
  by (auto simp: process_photo_def split: prod.splits sum.splits)

lemma process_video_fails:
  "mkdir True True destination (files w) = Inl e \<Longrightarrow>
   process_video rt tool v source destination w = (Inl e, w)"
  by (simp add: process_video_def)

lemma process_video_result:
  "fst (process_video rt tool v source destination w) = Inr out \<Longrightarrow>
   out = video_output rt v source destination"
  by (auto simp: process_video_def Let_def split: prod.splits sum.splits)

lemma process_video_started:
  assumes "mkdir True True destination (files w) = Inr fs1"
  shows "\<exists>rest. started_by w (snd (process_video rt tool v source destination w))
           = (bitrate_cmd source, fs1) # rest
         \<and> (keeps_directories tool \<longrightarrow> is_dir fs1 destination \<longrightarrow>
              list_all (\<lambda>c. is_dir (snd c) destination) rest)"
proof -
  let ?w1 = "w\<lparr>files := fs1\<rparr>"
  let ?w2 = "snd (invoke tool (bitrate_cmd source) ?w1)"
  let ?w3 = "snd (invoke tool (audio_cmd source) ?w2)"
  have k2: "is_dir (files ?w2) destination"
    if "keeps_directories tool" "is_dir fs1 destination"
    using that by (simp add: invoke_world keeps_directories_def)
  have k3: "is_dir (files ?w3) destination"
    if "keeps_directories tool" "is_dir fs1 destination"
    using k2 [OF that] that(1) by (simp add: invoke_world keeps_directories_def)
  have c2: "started_by w ?w2 = [(bitrate_cmd source, fs1)]"
    by (simp add: started_by_def invoke_world)
  have c3: "started_by w ?w3 = [(bitrate_cmd source, fs1), (audio_cmd source, files ?w2)]"
    by (simp add: started_by_def invoke_world)
  have c4: "started_by w (snd (run_subprocess tool cmd ?w3))
     = [(bitrate_cmd source, fs1), (audio_cmd source, files ?w2), (cmd, files ?w3)]" for cmd
    by (simp add: started_by_def run_subprocess_world invoke_world)
  have fin: "snd (case run_subprocess tool cmd ?w3 of
                    (Inl e, w') \<Rightarrow> (Inl e, w')
                  | (Inr x, w') \<Rightarrow> (Inr (video_output rt v source destination), w'))
             = snd (run_subprocess tool cmd ?w3)" for cmd
    by (simp split: prod.splits sum.splits)
  show ?thesis
  proof (cases "probe_bitrate rt (fst (invoke tool (bitrate_cmd source) ?w1))")
    case (Inl e)
    then have "snd (process_video rt tool v source destination w) = ?w2"
      using assms by (simp add: process_video_def Let_def)
    then show ?thesis using c2 by simp
  next
    case bitrate: (Inr bitrate)
    show ?thesis
    proof (cases "target_bitrate bitrate (draw_bitrate_delta (bitrate_raw v))")
      case (Inl e)
      then have "snd (process_video rt tool v source destination w) = ?w2"
        using assms bitrate by (simp add: process_video_def Let_def)
      then show ?thesis using c2 by simp
    next
      case target: (Inr target)
      show ?thesis
      proof (cases "probe_has_audio (fst (invoke tool (audio_cmd source) ?w2))")
        case (Inl e)
        then have "snd (process_video rt tool v source destination w) = ?w3"
          using assms bitrate target by (simp add: process_video_def Let_def)
        then show ?thesis using c3 k2 by simp
      next
        case (Inr has_audio)
        then have "snd (process_video rt tool v source destination w)
            = snd (run_subprocess tool
                     (video_cmd rt v target has_audio source destination) ?w3)"
          using assms bitrate target by (simp add: process_video_def Let_def fin)
        then show ?thesis
          using c4 [of "video_cmd rt v target has_audio source destination"] k2 k3 by simp
      qed
    qed
  qed
qed

text \<open>
  C10. Every child process that \<open>process_photo\<close> starts, and the first one that
  \<open>process_video\<close> starts, finds the destination a directory, reached through
  directories; so do the later ones of \<open>process_video\<close> when the tool keeps the
  directories. A destination that is a directory already is no error: the tool is
  started on the file system as it was. When nothing stands in the way of the
  destination (neither it nor a path leading to it is a file), whether it exists or
  not, the transform starts its tool. A path that is returned is the destination
  extended by one component, the name of the output.
\<close>

theorem destination_created_before_tool:
  "list_all (\<lambda>c. is_dir (snd c) destination)
     (started_by w (snd (process_photo rt tool d source destination w)))
   \<and> list_all (\<lambda>c. is_dir (snd c) destination)
       (take 1 (started_by w (snd (process_video rt tool v source destination w))))
   \<and> (keeps_directories tool \<longrightarrow>
        list_all (\<lambda>c. is_dir (snd c) destination)
          (started_by w (snd (process_video rt tool v source destination w))))
   \<and> (is_dir (files w) destination \<longrightarrow>
        started_by w (snd (process_photo rt tool d source destination w))
          = [(photo_cmd rt d source destination, files w)]
        \<and> take 1 (started_by w (snd (process_video rt tool v source destination w)))
          = [(bitrate_cmd source, files w)])
   \<and> (clear (files w) [] destination \<longrightarrow>
        started_by w (snd (process_photo rt tool d source destination w)) \<noteq> []
        \<and> started_by w (snd (process_video rt tool v source destination w)) \<noteq> [])
   \<and> (fst (process_photo rt tool d source destination w) = Inr out \<longrightarrow>
        butlast out = destination \<and> last out = photo_uuid d @ photo_suffix rt source)
   \<and> (fst (process_video rt tool v source destination w) = Inr out' \<longrightarrow>
        butlast out' = destination \<and> last out' = video_uuid v @ video_suffix rt source)"
proof -
  let ?P = "snd (process_photo rt tool d source destination w)"
  let ?V = "snd (process_video rt tool v source destination w)"
  have photo: "started_by w ?P = [(photo_cmd rt d source destination, fs1)]"
    if "mkdir True True destination (files w) = Inr fs1" for fs1
    using that by (simp add: process_photo_world started_by_def invoke_world)
  have none: "started_by w ?P = [] \<and> started_by w ?V = []"
    if "mkdir True True destination (files w) = Inl e" for e
    using that by (simp add: process_photo_fails process_video_fails started_by_def)
  have a: "list_all (\<lambda>c. is_dir (snd c) destination) (started_by w ?P)
     \<and> list_all (\<lambda>c. is_dir (snd c) destination) (take 1 (started_by w ?V))
     \<and> (keeps_directories tool \<longrightarrow>
          list_all (\<lambda>c. is_dir (snd c) destination) (started_by w ?V))"
  proof (cases "mkdir True True destination (files w)")
    case (Inl e)
    then show ?thesis using none by simp
  next
    case (Inr fs1)
    then have dir: "is_dir fs1 destination" by (rule mkdir_is_dir)
    from process_video_started [OF Inr, of rt tool v source] obtain rest where
      r: "started_by w ?V = (bitrate_cmd source, fs1) # rest"
        "keeps_directories tool \<longrightarrow> list_all (\<lambda>c. is_dir (snd c) destination) rest"
      using dir by blast
    show ?thesis using photo [OF Inr] r dir by simp
  qed
  have b: "started_by w ?P = [(photo_cmd rt d source destination, files w)]
        \<and> take 1 (started_by w ?V) = [(bitrate_cmd source, files w)]"
    if "is_dir (files w) destination"
  proof -
    have m: "mkdir True True destination (files w) = Inr (files w)"
      using that by (rule mkdir_existing)
    from process_video_started [OF m, of rt tool v source] obtain rest where
      "started_by w ?V = (bitrate_cmd source, files w) # rest" by blast
    then show ?thesis using photo [OF m] by simp
  qed
  have c: "started_by w ?P \<noteq> [] \<and> started_by w ?V \<noteq> []"
    if "clear (files w) [] destination"
  proof -
    from mkdir_clear [OF that] obtain fs1 where
      m: "mkdir True True destination (files w) = Inr fs1" by blast
    from process_video_started [OF m, of rt tool v source] obtain rest where
      "started_by w ?V = (bitrate_cmd source, fs1) # rest" by blast
    then show ?thesis using photo [OF m] by simp
  qed
  have e: "butlast out = destination \<and> last out = photo_uuid d @ photo_suffix rt source"
    if "fst (process_photo rt tool d source destination w) = Inr out"
    using process_photo_result [OF that] by (simp add: photo_output_def)
  have f: "butlast out' = destination \<and> last out' = video_uuid v @ video_suffix rt source"
    if "fst (process_video rt tool v source destination w) = Inr out'"
    using process_video_result [OF that] by (simp add: video_output_def)
  from a b c e f show ?thesis by blast
qed

theorem destination_created_before_tool_witness:
  "keeps_directories quiet_tool
   \<and> clear (files fresh_world) [] [''tmp'', ''processed'']
   \<and> \<not> is_dir (files fresh_world) [''tmp'', ''processed'']
   \<and> is_dir (files prepared_world) [''tmp'', ''processed'']
   \<and> fst (process_photo plain_runtime quiet_tool some_photo_draws [''tmp'', ''input_a.JPG'']
            [''tmp'', ''processed''] fresh_world)
       = Inr [''tmp'', ''processed'', ''0f.jpg'']
   \<and> butlast [''tmp'', ''processed'', ''0f.jpg''] = [''tmp'', ''processed'']
   \<and> started_by fresh_world
        (snd (process_photo plain_runtime quiet_tool some_photo_draws [''tmp'', ''input_a.JPG'']
                [''tmp'', ''processed''] fresh_world)) \<noteq> []
   \<and> list_all (\<lambda>c. is_dir (snd c) [''tmp'', ''processed''])
        (started_by fresh_world
          (snd (process_photo plain_runtime quiet_tool some_photo_draws [''tmp'', ''input_a.JPG'']
                  [''tmp'', ''processed''] fresh_world)))
   \<and> list_all (\<lambda>c. is_dir (snd c) [''tmp'', ''processed''])
        (started_by fresh_world
          (snd (process_video plain_runtime quiet_tool some_video_draws [''tmp'', ''input_b.mov'']
                  [''tmp'', ''processed''] fresh_world)))
   \<and> started_by prepared_world
        (snd (process_photo plain_runtime quiet_tool some_photo_draws [''tmp'', ''input_a.JPG'']
                [''tmp'', ''processed''] prepared_world))
       = [(photo_cmd plain_runtime some_photo_draws [''tmp'', ''input_a.JPG'']
             [''tmp'', ''processed''], files prepared_world)]"
proof -
  let ?dst = "[''tmp'', ''processed'']"
  let ?src = "[''tmp'', ''input_a.JPG'']"
  let ?out = "[''tmp'', ''processed'', ''0f.jpg'']"
  have k: "keeps_directories quiet_tool"
    by (simp add: keeps_directories_def quiet_tool_def)
  have c: "clear (files fresh_world) [] ?dst"
    by (simp add: fresh_world_def tmp_only_def)
  have n: "\<not> is_dir (files fresh_world) ?dst"
    by (simp add: fresh_world_def tmp_only_def is_dir_def)
  have p: "is_dir (files prepared_world) ?dst"
    by (simp add: prepared_world_def with_processed_def is_dir_def)
  have r: "fst (process_photo plain_runtime quiet_tool some_photo_draws ?src ?dst fresh_world)
           = Inr ?out"
    by (simp add: process_photo_def mkdir.simps os_mkdir_def fresh_world_def tmp_only_def
        is_dir_def run_subprocess_def invoke_def quiet_tool_def photo_output_def
        some_photo_draws_def photo_suffix_def suffix_def name_def plain_runtime_def
        ascii_lower_def)
  note t = destination_created_before_tool
    [of ?dst fresh_world plain_runtime quiet_tool some_photo_draws ?src some_video_draws ?out ?out]
  note u = destination_created_before_tool
    [of ?dst prepared_world plain_runtime quiet_tool some_photo_draws ?src some_video_draws
        ?out ?out]
  have b: "butlast ?out = ?dst" using t r by blast
  have s: "started_by fresh_world
        (snd (process_photo plain_runtime quiet_tool some_photo_draws ?src ?dst fresh_world))
        \<noteq> []"
    using t c by blast
  have l1: "list_all (\<lambda>c. is_dir (snd c) ?dst)
        (started_by fresh_world
          (snd (process_photo plain_runtime quiet_tool some_photo_draws ?src ?dst fresh_world)))"
    using t by blast
  note t' = destination_created_before_tool
    [of ?dst fresh_world plain_runtime quiet_tool some_photo_draws "[''tmp'', ''input_b.mov'']"
        some_video_draws ?out ?out]
  have l2: "list_all (\<lambda>c. is_dir (snd c) ?dst)
        (started_by fresh_world
          (snd (process_video plain_runtime quiet_tool some_video_draws
                  [''tmp'', ''input_b.mov''] ?dst fresh_world)))"
    using t' k by blast
  have e: "started_by prepared_world
        (snd (process_photo plain_runtime quiet_tool some_photo_draws ?src ?dst prepared_world))
       = [(photo_cmd plain_runtime some_photo_draws ?src ?dst, files prepared_world)]"
    using u p by blast
  from k c n p r b s l1 l2 e show ?thesis by blast
qed

end
